theory Spec2Isabelle
  imports Complex_Main "HOL-Library.Multiset"
begin

section \<open>Maze Runner: constants and Python values\<close>

text \<open>
  The module-level constants of \<^verbatim>\<open>maze_runner.py\<close>, with the values the
  source computes them from.
\<close>

definition SCREEN_WIDTH :: int where "SCREEN_WIDTH = 800"
definition TILE :: int where "TILE = 32"
definition GRID_COLS :: int where "GRID_COLS = 22"
definition GRID_ROWS :: int where "GRID_ROWS = 18"
definition MAZE_PIXEL_WIDTH :: int where "MAZE_PIXEL_WIDTH = GRID_COLS * TILE"
definition OFFSET_X :: int where "OFFSET_X = (SCREEN_WIDTH - MAZE_PIXEL_WIDTH) div 2"
definition OFFSET_Y :: int where "OFFSET_Y = 80"
definition PLAYER_SPEED :: int where "PLAYER_SPEED = 2"
definition ENEMY_SPEED :: int where "ENEMY_SPEED = 2"
definition PLAYER_SIZE :: int where "PLAYER_SIZE = TILE - 6"
definition ENEMY_SIZE :: int where "ENEMY_SIZE = TILE - 6"
definition MAX_LEVEL :: int where "MAX_LEVEL = 100"
definition START_LIVES :: int where "START_LIVES = 3"

lemmas const_defs =
  SCREEN_WIDTH_def TILE_def GRID_COLS_def GRID_ROWS_def MAZE_PIXEL_WIDTH_def
  OFFSET_X_def OFFSET_Y_def PLAYER_SPEED_def ENEMY_SPEED_def PLAYER_SIZE_def
  ENEMY_SIZE_def MAX_LEVEL_def START_LIVES_def

text \<open>
  The exceptions the modelled code can raise. A function that can raise returns
  \<open>py_error + 'a\<close>, with \<open>Inl\<close> the exception.
\<close>

datatype py_error = TypeError | IndexError | KeyError | OverflowError

text \<open>
  A grid is a Python list of rows, each a list of ints: \<open>0\<close> is a wall, \<open>1\<close>
  is free. A cell is a pair \<open>(column, row)\<close>; the grid is read as
  \<^verbatim>\<open>grid[row][column]\<close>.
\<close>

type_synonym grid = "int list list"
type_synonym cell = "int \<times> int"

text \<open>
  Python list indexing with an int: an index \<open>i\<close> of a list of length \<open>n\<close> names
  position \<open>i\<close> when \<open>0 \<le> i < n\<close> and position \<open>n + i\<close> when \<open>- n \<le> i < 0\<close>;
  any other index raises \<open>IndexError\<close>.
\<close>

definition py_position :: "nat \<Rightarrow> int \<Rightarrow> nat option" where
  "py_position n i =
     (if 0 \<le> i \<and> i < int n then Some (nat i)
      else if - int n \<le> i \<and> i < 0 then Some (nat (int n + i))
      else None)"

text \<open>\<^verbatim>\<open>xs[i]\<close> and \<^verbatim>\<open>xs[i] = v\<close>.\<close>

definition py_get :: "'a list \<Rightarrow> int \<Rightarrow> py_error + 'a" where
  "py_get xs i = (case py_position (length xs) i of None \<Rightarrow> Inl IndexError | Some k \<Rightarrow> Inr (xs ! k))"

definition py_set :: "'a list \<Rightarrow> int \<Rightarrow> 'a \<Rightarrow> py_error + 'a list" where
  "py_set xs i v =
     (case py_position (length xs) i of None \<Rightarrow> Inl IndexError | Some k \<Rightarrow> Inr (xs[k := v]))"

text \<open>\<^verbatim>\<open>grid[y][x]\<close> and \<^verbatim>\<open>grid[y][x] = v\<close>.\<close>

definition grid_get :: "grid \<Rightarrow> int \<Rightarrow> int \<Rightarrow> py_error + int" where
  "grid_get g y x = (case py_get g y of Inl e \<Rightarrow> Inl e | Inr row \<Rightarrow> py_get row x)"

definition grid_set :: "grid \<Rightarrow> int \<Rightarrow> int \<Rightarrow> int \<Rightarrow> py_error + grid" where
  "grid_set g y x v =
     (case py_get g y of
        Inl e \<Rightarrow> Inl e
      | Inr row \<Rightarrow> (case py_set row x v of Inl e \<Rightarrow> Inl e | Inr row' \<Rightarrow> py_set g y row'))"

subsection \<open>Numbers: ints and floats\<close>

text \<open>
  Pixel positions are Python numbers. The player's position stays an int; the enemy's
  velocity is computed with true division, so the positions it proposes are floats.
  A float is modelled by the real number it denotes, and every float operation by the
  exact operation followed by a rounding function \<open>rd\<close>, which is a parameter of the
  model: the theorems hold for every \<open>rd\<close>. Comparisons between ints and floats are
  exact in Python.
\<close>

datatype num = PInt int | PFloat real

fun to_real :: "num \<Rightarrow> real" where
  "to_real (PInt i) = of_int i"
| "to_real (PFloat r) = r"

definition num_lt :: "num \<Rightarrow> num \<Rightarrow> bool" where
  "num_lt a b = (to_real a < to_real b)"

definition num_le :: "num \<Rightarrow> num \<Rightarrow> bool" where
  "num_le a b = (to_real a \<le> to_real b)"

fun num_add :: "(real \<Rightarrow> real) \<Rightarrow> num \<Rightarrow> num \<Rightarrow> num" where
  "num_add rd (PInt a) (PInt b) = PInt (a + b)"
| "num_add rd a b = PFloat (rd (to_real a + to_real b))"

fun num_sub :: "(real \<Rightarrow> real) \<Rightarrow> num \<Rightarrow> num \<Rightarrow> num" where
  "num_sub rd (PInt a) (PInt b) = PInt (a - b)"
| "num_sub rd a b = PFloat (rd (to_real a - to_real b))"

text \<open>
  Floor division \<^verbatim>\<open>a // b\<close>. The divisor is \<open>TILE = 32\<close> at every call: never
  zero, and a power of two, for which the floor division of a float is exact. On a float
  the result is a float with an integral value.
\<close>

fun num_floordiv :: "num \<Rightarrow> num \<Rightarrow> num" where
  "num_floordiv (PInt a) (PInt b) = PInt (a div b)"
| "num_floordiv a b = PFloat (of_int \<lfloor>to_real a / to_real b\<rfloor>)"

text \<open>
  The builtins \<^verbatim>\<open>min(a, b)\<close> and \<^verbatim>\<open>max(a, b)\<close> return one of their arguments,
  the first unless the second is strictly smaller (larger): the result keeps that
  argument's type.
\<close>

definition py_min :: "num \<Rightarrow> num \<Rightarrow> num" where
  "py_min a b = (if num_lt b a then b else a)"

definition py_max :: "num \<Rightarrow> num \<Rightarrow> num" where
  "py_max a b = (if num_lt a b then b else a)"

text \<open>A list index must be an int: a float index raises \<open>TypeError\<close>, whatever its value.\<close>

definition py_index :: "'a list \<Rightarrow> num \<Rightarrow> py_error + 'a" where
  "py_index xs n = (case n of PFloat r \<Rightarrow> Inl TypeError | PInt i \<Rightarrow> py_get xs i)"

section \<open>Difficulty ramp of the generator\<close>

text \<open>
  \<^verbatim>\<open>extra_block_chance = min(35, (level - 1) // 3 + 3)\<close>; a free interior cell is
  blocked when \<^verbatim>\<open>random.randint(1,100) <= extra_block_chance\<close>. The draw is uniform
  on \<open>1..100\<close>, so the probability of blocking is the share of draws that pass the test.
\<close>

definition extra_block_chance :: "int \<Rightarrow> int" where
  "extra_block_chance level = min 35 ((level - 1) div 3 + 3)"


section \<open>Pixels to cells, and the collision test\<close>

text \<open>\<^verbatim>\<open>grid_to_pixel\<close>: the pixel centre of a cell.\<close>

definition grid_to_pixel :: "int \<Rightarrow> int \<Rightarrow> int \<times> int" where
  "grid_to_pixel gx gy = (OFFSET_X + gx * TILE + TILE div 2, OFFSET_Y + gy * TILE + TILE div 2)"

text \<open>\<^verbatim>\<open>pixel_to_grid\<close>: floor division by the tile size, then the clamp.\<close>

definition pixel_to_grid :: "(real \<Rightarrow> real) \<Rightarrow> num \<Rightarrow> num \<Rightarrow> num \<times> num" where
  "pixel_to_grid rd px py =
     (let gx = num_floordiv (num_sub rd px (PInt OFFSET_X)) (PInt TILE);
          gy = num_floordiv (num_sub rd py (PInt OFFSET_Y)) (PInt TILE);
          gx = py_max (PInt 0) (py_min (PInt (GRID_COLS - 1)) gx);
          gy = py_max (PInt 0) (py_min (PInt (GRID_ROWS - 1)) gy)
      in (gx, gy))"

text \<open>
  \<^verbatim>\<open>MazeRunner.can_move_to\<close>. The loop body has two \<^verbatim>\<open>return False\<close> statements;
  \<open>check_corner\<close> says which of them a corner reaches (\<open>OutOfBounds\<close> for the
  bounds test, \<open>HitsWall\<close> for the wall test), or that the corner passes both.
\<close>

datatype corner_check = OutOfBounds | HitsWall | Free

definition corners :: "(real \<Rightarrow> real) \<Rightarrow> num \<Rightarrow> num \<Rightarrow> (num \<times> num) list" where
  "corners rd px py =
     (let w = PInt PLAYER_SIZE in
      [(num_add rd px (PInt 2), num_add rd py (PInt 2)),
       (num_sub rd (num_add rd px w) (PInt 2), num_add rd py (PInt 2)),
       (num_add rd px (PInt 2), num_sub rd (num_add rd py w) (PInt 2)),
       (num_sub rd (num_add rd px w) (PInt 2), num_sub rd (num_add rd py w) (PInt 2))])"

definition check_corner :: "(real \<Rightarrow> real) \<Rightarrow> grid \<Rightarrow> num \<times> num \<Rightarrow> py_error + corner_check" where
  "check_corner rd g c =
     (let (gx, gy) = pixel_to_grid rd (fst c) (snd c) in
      if \<not> (num_le (PInt 0) gx \<and> num_lt gx (PInt GRID_COLS)
             \<and> num_le (PInt 0) gy \<and> num_lt gy (PInt GRID_ROWS))
      then Inr OutOfBounds
      else (case py_index g gy of
              Inl e \<Rightarrow> Inl e
            | Inr row \<Rightarrow>
                (case py_index row gx of
                   Inl e \<Rightarrow> Inl e
                 | Inr v \<Rightarrow> if v = 0 then Inr HitsWall else Inr Free)))"

fun check_corners :: "(real \<Rightarrow> real) \<Rightarrow> grid \<Rightarrow> (num \<times> num) list \<Rightarrow> py_error + bool" where
  "check_corners rd g [] = Inr True"
| "check_corners rd g (c # cs) =
     (case check_corner rd g c of
        Inl e \<Rightarrow> Inl e
      | Inr Free \<Rightarrow> check_corners rd g cs
      | Inr r \<Rightarrow> Inr False)"

definition can_move_to :: "(real \<Rightarrow> real) \<Rightarrow> grid \<Rightarrow> num \<Rightarrow> num \<Rightarrow> py_error + bool" where
  "can_move_to rd g px py = check_corners rd g (corners rd px py)"

section \<open>Properties of the difficulty ramp\<close>







section \<open>The collision test never leaves the grid\<close>

lemma clamp_range:
  assumes "0 \<le> n"
  shows "num_le (PInt 0) (py_max (PInt 0) (py_min (PInt n) v))
         \<and> num_le (py_max (PInt 0) (py_min (PInt n) v)) (PInt n)"
  using assms by (auto simp: py_max_def py_min_def num_le_def num_lt_def)

lemma pixel_to_grid_range:
  assumes "pixel_to_grid rd px py = (gx, gy)"
  shows "num_le (PInt 0) gx \<and> num_le gx (PInt (GRID_COLS - 1))
         \<and> num_le (PInt 0) gy \<and> num_le gy (PInt (GRID_ROWS - 1))"
proof -
  have c: "0 \<le> GRID_COLS - 1" and r: "0 \<le> GRID_ROWS - 1"
    by (simp_all add: GRID_COLS_def GRID_ROWS_def)
  from assms have
    "gx = py_max (PInt 0) (py_min (PInt (GRID_COLS - 1))
            (num_floordiv (num_sub rd px (PInt OFFSET_X)) (PInt TILE)))"
    "gy = py_max (PInt 0) (py_min (PInt (GRID_ROWS - 1))
            (num_floordiv (num_sub rd py (PInt OFFSET_Y)) (PInt TILE)))"
    by (simp_all add: pixel_to_grid_def Let_def)
  then show ?thesis
    using clamp_range[OF c] clamp_range[OF r] by simp
qed

lemma bounds_test_passes:
  assumes "pixel_to_grid rd px py = (gx, gy)"
  shows "num_le (PInt 0) gx \<and> num_lt gx (PInt GRID_COLS)
         \<and> num_le (PInt 0) gy \<and> num_lt gy (PInt GRID_ROWS)"
  using pixel_to_grid_range[OF assms]
  by (auto simp: num_le_def num_lt_def)







section \<open>The maze generator\<close>

subsection \<open>The random source\<close>

text \<open>
  \<^verbatim>\<open>generate_maze\<close> draws from Python's global \<^verbatim>\<open>random\<close> module. The generator's
  state is modelled as the infinite sequence of raw draws still to come, threaded through
  every function that draws: every sequence of outcomes the real generator can produce is
  the behaviour of the model on some sequence, so a theorem for all sequences covers
  every run. The three library functions follow the standard library's definitions:
  \<^verbatim>\<open>shuffle\<close> swaps position \<open>i\<close> with a random position \<open>j \<le> i\<close> for
  \<open>i\<close> from the last index down to 1, \<^verbatim>\<open>choice(seq)\<close> is \<^verbatim>\<open>seq[randbelow(len(seq))]\<close>
  and \<^verbatim>\<open>randint(a, b)\<close> is \<^verbatim>\<open>a + randbelow(b - a + 1)\<close>.
\<close>

type_synonym rng = "nat \<Rightarrow> nat"

definition randbelow :: "rng \<Rightarrow> nat \<Rightarrow> nat \<times> rng" where
  "randbelow s n = (s 0 mod n, \<lambda>i. s (Suc i))"

fun shuffle_from :: "nat \<Rightarrow> 'a list \<Rightarrow> rng \<Rightarrow> 'a list \<times> rng" where
  "shuffle_from 0 xs s = (xs, s)"
| "shuffle_from (Suc i) xs s =
     (let (j, s') = randbelow s (Suc i + 1)
      in shuffle_from i (xs[Suc i := xs ! j, j := xs ! Suc i]) s')"

definition shuffle :: "'a list \<Rightarrow> rng \<Rightarrow> 'a list \<times> rng" where
  "shuffle xs s = shuffle_from (length xs - 1) xs s"

definition randint :: "int \<Rightarrow> int \<Rightarrow> rng \<Rightarrow> int \<times> rng" where
  "randint a b s = (let (k, s') = randbelow s (nat (b - a + 1)) in (a + int k, s'))"

subsection \<open>The depth-first carving\<close>

text \<open>
  The local function \<^verbatim>\<open>neighbors(cx, cy)\<close>, with \<open>w = GRID_COLS\<close> and
  \<open>h = GRID_ROWS\<close>.
\<close>

definition neighbors :: "rng \<Rightarrow> int \<Rightarrow> int \<Rightarrow> cell list \<times> rng" where
  "neighbors s cx cy =
     shuffle ((if cx - 2 \<ge> 1 then [(cx - 2, cy)] else [])
              @ (if cx + 2 \<le> GRID_COLS - 2 then [(cx + 2, cy)] else [])
              @ (if cy - 2 \<ge> 1 then [(cx, cy - 2)] else [])
              @ (if cy + 2 \<le> GRID_ROWS - 2 then [(cx, cy + 2)] else [])) s"

text \<open>The list comprehension \<^verbatim>\<open>[p for p in neighbors(x,y) if grid[p[1]][p[0]] == 0]\<close>.\<close>

fun unvisited :: "grid \<Rightarrow> cell list \<Rightarrow> py_error + cell list" where
  "unvisited g [] = Inr []"
| "unvisited g (p # ps) =
     (case grid_get g (snd p) (fst p) of
        Inl e \<Rightarrow> Inl e
      | Inr v \<Rightarrow>
          (case unvisited g ps of
             Inl e \<Rightarrow> Inl e
           | Inr r \<Rightarrow> Inr (if v = 0 then p # r else r)))"

text \<open>The number of wall cells of a grid: what the carving loop uses up.\<close>

definition zeros :: "grid \<Rightarrow> nat" where
  "zeros g = sum_list (map (\<lambda>row. count_list row 0) g)"

lemma shuffle_from_set: "i < length xs \<Longrightarrow> set (fst (shuffle_from i xs s)) = set xs"
proof (induction i arbitrary: xs s)
  case 0
  then show ?case by simp
next
  case (Suc i)
  obtain j s' where r: "randbelow s (Suc i + 1) = (j, s')"
    by (cases "randbelow s (Suc i + 1)")
  then have j: "j < Suc i + 1"
    by (auto simp: randbelow_def)
  let ?ys = "xs[Suc i := xs ! j, j := xs ! Suc i]"
  have "mset ?ys = mset xs"
    using mset_swap[of j xs "Suc i"] j Suc.prems by simp
  then have "set ?ys = set xs"
    by (rule mset_eq_setD)
  moreover have "set (fst (shuffle_from i ?ys s')) = set ?ys"
    using Suc.IH[of ?ys s'] Suc.prems by simp
  ultimately show ?case
    using r by simp
qed

lemma shuffle_set: "set (fst (shuffle xs s)) = set xs"
proof (cases xs)
  case Nil
  then show ?thesis by (simp add: shuffle_def)
next
  case (Cons a as)
  then show ?thesis
    unfolding shuffle_def by (intro shuffle_from_set) simp
qed

lemma neighbors_cells:
  assumes "(nx, ny) \<in> set (fst (neighbors s x y))"
  shows "(ny = y \<and> ((nx = x - 2 \<and> 1 \<le> nx) \<or> (nx = x + 2 \<and> nx \<le> GRID_COLS - 2)))
       \<or> (nx = x \<and> ((ny = y - 2 \<and> 1 \<le> ny) \<or> (ny = y + 2 \<and> ny \<le> GRID_ROWS - 2)))"
  using assms unfolding neighbors_def shuffle_set
  by (auto split: if_splits)

lemma unvisited_subset:
  "unvisited g ps = Inr nb \<Longrightarrow> p \<in> set nb \<Longrightarrow> p \<in> set ps \<and> grid_get g (snd p) (fst p) = Inr 0"
  by (induction ps arbitrary: nb) (auto split: sum.splits if_splits)

lemma count_list_update:
  "i < length xs \<Longrightarrow>
     count_list (xs[i := v]) a + (if xs ! i = a then 1 else 0)
       = count_list xs a + (if v = a then 1 else 0)"
proof (induction xs arbitrary: i)
  case Nil
  then show ?case by simp
next
  case (Cons x xs)
  show ?case
  proof (cases i)
    case 0
    then show ?thesis by simp
  next
    case (Suc k)
    with Cons.prems have "k < length xs" by simp
    from Cons.IH[OF this] Suc show ?thesis by (auto split: if_splits)
  qed
qed

lemma sum_list_map_update:
  "j < length g \<Longrightarrow>
     sum_list (map f (g[j := r])) + f (g ! j) = sum_list (map f g) + (f r :: nat)"
proof (induction g arbitrary: j)
  case Nil
  then show ?case by simp
next
  case (Cons x xs)
  then show ?case by (cases j) auto
qed

lemma py_position_Some: "py_position n i = Some k \<Longrightarrow> k < n"
  by (auto simp: py_position_def split: if_splits)

lemma py_position_nonneg: "0 \<le> i \<Longrightarrow> py_position n i = Some k \<Longrightarrow> k = nat i"
  by (auto simp: py_position_def split: if_splits)

lemma grid_set_zeros:
  assumes "grid_set g y x v = Inr g'"
  obtains j i where "py_position (length g) y = Some j" "py_position (length (g ! j)) x = Some i"
    "g' = g[j := (g ! j)[i := v]]"
    "zeros g' + (if g ! j ! i = 0 then 1 else 0) = zeros g + (if v = 0 then 1 else 0)"
proof -
  from assms obtain j where j: "py_position (length g) y = Some j"
    by (auto simp: grid_set_def py_get_def split: option.splits)
  with assms obtain i where i: "py_position (length (g ! j)) x = Some i"
    by (auto simp: grid_set_def py_get_def py_set_def split: option.splits)
  from assms j i have g': "g' = g[j := (g ! j)[i := v]]"
    by (auto simp: grid_set_def py_get_def py_set_def split: option.splits)
  have jl: "j < length g" and il: "i < length (g ! j)"
    using py_position_Some j i by blast+
  have "zeros g' + count_list (g ! j) 0 = zeros g + count_list ((g ! j)[i := v]) 0"
    unfolding zeros_def g' using sum_list_map_update[OF jl] by blast
  moreover have "count_list ((g ! j)[i := v]) 0 + (if g ! j ! i = 0 then 1 else 0)
       = count_list (g ! j) 0 + (if v = 0 then 1 else 0)"
    using count_list_update[OF il] by blast
  ultimately have "zeros g' + (if g ! j ! i = 0 then 1 else 0) = zeros g + (if v = 0 then 1 else 0)"
    by linarith
  with j i g' that show ?thesis by blast
qed

lemma grid_get_position:
  assumes "grid_get g y x = Inr v"
  obtains j i where "py_position (length g) y = Some j" "py_position (length (g ! j)) x = Some i"
    "g ! j ! i = v"
  using assms by (auto simp: grid_get_def py_get_def split: option.splits)

lemma carve_step_decreases:
  assumes z: "grid_get g ny nx = Inr 0"
    and g1: "grid_set g wy wx 1 = Inr g1"
    and g2: "grid_set g1 ny nx 1 = Inr g2"
  shows "zeros g2 < zeros g"
proof -
  from g1 obtain j i where ji: "py_position (length g) wy = Some j"
      "py_position (length (g ! j)) wx = Some i"
      "g1 = g[j := (g ! j)[i := 1]]"
      and z1: "zeros g1 + (if g ! j ! i = 0 then 1 else 0) = zeros g + (if (1::int) = 0 then 1 else 0)"
    by (rule grid_set_zeros)
  from g2 obtain j' i' where ji': "py_position (length g1) ny = Some j'"
      "py_position (length (g1 ! j')) nx = Some i'"
      and z2: "zeros g2 + (if g1 ! j' ! i' = 0 then 1 else 0) = zeros g1 + (if (1::int) = 0 then 1 else 0)"
    by (rule grid_set_zeros)
  from z obtain j'' i'' where ji'': "py_position (length g) ny = Some j''"
      "py_position (length (g ! j'')) nx = Some i''" "g ! j'' ! i'' = 0"
    by (rule grid_get_position)
  have len: "length g1 = length g" using ji(3) by simp
  then have jj: "j'' = j'" using ji'(1) ji''(1) by simp
  have jl: "j < length g" using py_position_Some ji(1) by blast
  have j'l: "j' < length g" using py_position_Some ji'(1) len by metis
  have rowlen: "length (g1 ! j') = length (g ! j')"
    using ji(3) jl by (cases "j' = j") auto
  then have ii: "i'' = i'" using ji'(2) ji''(2) jj by simp
  show ?thesis
  proof (cases "j' = j \<and> i' = i")
    case True
    then have "g ! j ! i = 0" using ji''(3) jj ii by simp
    with z1 z2 show ?thesis by (simp split: if_splits)
  next
    case False
    then have "g1 ! j' ! i' = g ! j' ! i'"
      using ji(3) jl j'l by (cases "j' = j") auto
    then have "g1 ! j' ! i' = 0" using ji''(3) jj ii by simp
    with z1 z2 show ?thesis by (simp split: if_splits)
  qed
qed

text \<open>
  The \<^verbatim>\<open>while stack:\<close> loop. The head of the list is the top of the Python
  stack (\<^verbatim>\<open>stack[-1]\<close>). Every iteration either turns a wall cell into a free one
  and pushes, or pops, so the loop terminates on every grid.
\<close>

function carve :: "rng \<Rightarrow> grid \<Rightarrow> cell list \<Rightarrow> py_error + (grid \<times> rng)" where
  "carve s g [] = Inr (g, s)"
| "carve s g ((x, y) # stack) =
     (let (n, s1) = neighbors s x y in
      case unvisited g n of
        Inl e \<Rightarrow> Inl e
      | Inr nb \<Rightarrow>
          if nb \<noteq> [] then
            (let (k, s2) = randbelow s1 (length nb);
                 (nx, ny) = nb ! k;
                 wall_x = (x + nx) div 2;
                 wall_y = (y + ny) div 2
             in case grid_set g wall_y wall_x 1 of
                  Inl e \<Rightarrow> Inl e
                | Inr g1 \<Rightarrow>
                    (case grid_set g1 ny nx 1 of
                       Inl e \<Rightarrow> Inl e
                     | Inr g2 \<Rightarrow> carve s2 g2 ((nx, ny) # (x, y) # stack)))
          else carve s1 g stack)"
  by pat_completeness auto
termination
proof (relation "measure (\<lambda>(s, g, stack). 2 * zeros g + length stack)", goal_cases)
  case 1
  then show ?case by simp
next
  case (2 s g x y stack n_s1 n s1 nb k_s2 k s2 nxy nx ny wall_x wall_y g1 g2)
  have k: "k < length nb"
    using 2 by (auto simp: randbelow_def)
  then have "(nx, ny) \<in> set nb" using 2 by (metis nth_mem)
  then have "(nx, ny) \<in> set n" "grid_get g ny nx = Inr 0"
    using unvisited_subset[OF \<open>unvisited g n = Inr nb\<close>, of "(nx, ny)"] by auto
  then have "zeros g2 < zeros g"
    using carve_step_decreases[of g ny nx wall_y wall_x g1 g2] 2 by simp
  then show ?case by simp
next
  case 3
  then show ?case by simp
qed

subsection \<open>Extra walls, the border, and the generator\<close>

text \<open>
  The post-process: the body of the two nested \<^verbatim>\<open>for\<close> loops, run over the
  interior cells in row-major order. The draw is made only when the cell is free
  (\<^verbatim>\<open>and\<close> short-circuits).
\<close>

fun block_cells :: "int \<Rightarrow> cell list \<Rightarrow> grid \<Rightarrow> rng \<Rightarrow> py_error + (grid \<times> rng)" where
  "block_cells chance [] g s = Inr (g, s)"
| "block_cells chance ((rx, ry) # cs) g s =
     (if (rx, ry) \<in> set [(1, 1), (GRID_COLS - 2, GRID_ROWS - 2)] then block_cells chance cs g s
      else (case grid_get g ry rx of
              Inl e \<Rightarrow> Inl e
            | Inr v \<Rightarrow>
                if v = 1 then
                  (let (r, s') = randint 1 100 s in
                   if r \<le> chance then
                     (case grid_set g ry rx 0 of
                        Inl e \<Rightarrow> Inl e
                      | Inr g' \<Rightarrow> block_cells chance cs g' s')
                   else block_cells chance cs g s')
                else block_cells chance cs g s))"

definition interior_cells :: "cell list" where
  "interior_cells =
     concat (map (\<lambda>ry. map (\<lambda>rx. (rx, ry)) [1..GRID_COLS - 2]) [1..GRID_ROWS - 2])"

text \<open>
  The border loops: \<^verbatim>\<open>for x in range(w): grid[0][x] = 0; grid[h-1][x] = 0\<close> and
  \<^verbatim>\<open>for y in range(h): grid[y][0] = 0; grid[y][w-1] = 0\<close>.
\<close>

fun stamp_rows :: "grid \<Rightarrow> int list \<Rightarrow> py_error + grid" where
  "stamp_rows g [] = Inr g"
| "stamp_rows g (x # xs) =
     (case grid_set g 0 x 0 of
        Inl e \<Rightarrow> Inl e
      | Inr g1 \<Rightarrow>
          (case grid_set g1 (GRID_ROWS - 1) x 0 of
             Inl e \<Rightarrow> Inl e
           | Inr g2 \<Rightarrow> stamp_rows g2 xs))"

fun stamp_cols :: "grid \<Rightarrow> int list \<Rightarrow> py_error + grid" where
  "stamp_cols g [] = Inr g"
| "stamp_cols g (y # ys) =
     (case grid_set g y 0 0 of
        Inl e \<Rightarrow> Inl e
      | Inr g1 \<Rightarrow>
          (case grid_set g1 y (GRID_COLS - 1) 0 of
             Inl e \<Rightarrow> Inl e
           | Inr g2 \<Rightarrow> stamp_cols g2 ys))"

text \<open>
  \<^verbatim>\<open>generate_maze(level)\<close>. The source also computes \<^verbatim>\<open>carve_chance\<close> from the
  level and never reads it; the level enters only through \<open>extra_block_chance\<close>.
\<close>

definition initial_grid :: grid where
  "initial_grid = replicate (nat GRID_ROWS) (replicate (nat GRID_COLS) 0)"

definition generate_maze :: "rng \<Rightarrow> int \<Rightarrow> py_error + (grid \<times> rng)" where
  "generate_maze s level =
     (case grid_set initial_grid 1 1 1 of
        Inl e \<Rightarrow> Inl e
      | Inr g1 \<Rightarrow>
     (case carve s g1 [(1, 1)] of
        Inl e \<Rightarrow> Inl e
      | Inr (g2, s2) \<Rightarrow>
     (case block_cells (extra_block_chance level) interior_cells g2 s2 of
        Inl e \<Rightarrow> Inl e
      | Inr (g3, s3) \<Rightarrow>
     (case stamp_rows g3 [0..GRID_COLS - 1] of
        Inl e \<Rightarrow> Inl e
      | Inr g4 \<Rightarrow>
     (case stamp_cols g4 [0..GRID_ROWS - 1] of
        Inl e \<Rightarrow> Inl e
      | Inr g5 \<Rightarrow> Inr (g5, s3))))))"

subsection \<open>Grids of the fixed size\<close>

text \<open>
  A grid of \<open>GRID_ROWS\<close> rows of \<open>GRID_COLS\<close> cells; on such a grid the reads and
  writes of cells inside the grid never raise, and \<open>cell_at\<close> and \<open>put\<close> describe them.
\<close>

definition wf_grid :: "grid \<Rightarrow> bool" where
  "wf_grid g = (length g = nat GRID_ROWS \<and> (\<forall>row \<in> set g. length row = nat GRID_COLS))"

definition in_grid :: "cell \<Rightarrow> bool" where
  "in_grid c = (0 \<le> fst c \<and> fst c < GRID_COLS \<and> 0 \<le> snd c \<and> snd c < GRID_ROWS)"

definition cell_at :: "grid \<Rightarrow> cell \<Rightarrow> int" where
  "cell_at g c = g ! nat (snd c) ! nat (fst c)"

definition put :: "grid \<Rightarrow> cell \<Rightarrow> int \<Rightarrow> grid" where
  "put g c v = g[nat (snd c) := (g ! nat (snd c))[nat (fst c) := v]]"

lemma wf_row: "wf_grid g \<Longrightarrow> in_grid c \<Longrightarrow> nat (snd c) < length g \<and> length (g ! nat (snd c)) = nat GRID_COLS \<and> nat (fst c) < nat GRID_COLS"
  by (auto simp: wf_grid_def in_grid_def)

lemma py_position_in: "0 \<le> i \<Longrightarrow> nat i < n \<Longrightarrow> py_position n i = Some (nat i)"
  by (auto simp: py_position_def)

lemma grid_get_wf: "wf_grid g \<Longrightarrow> in_grid (x, y) \<Longrightarrow> grid_get g y x = Inr (cell_at g (x, y))"
  using wf_row[of g "(x, y)"]
  by (simp add: grid_get_def py_get_def py_position_in in_grid_def cell_at_def)

lemma grid_set_wf: "wf_grid g \<Longrightarrow> in_grid (x, y) \<Longrightarrow> grid_set g y x v = Inr (put g (x, y) v)"
  using wf_row[of g "(x, y)"]
  by (simp add: grid_set_def py_get_def py_set_def py_position_in in_grid_def put_def)

lemma wf_put: "wf_grid g \<Longrightarrow> in_grid c \<Longrightarrow> wf_grid (put g c v)"
  using wf_row[of g c]
  by (auto simp: wf_grid_def put_def dest!: set_update_subset_insert[THEN subsetD])

lemma cell_at_put:
  "wf_grid g \<Longrightarrow> in_grid c \<Longrightarrow> in_grid c' \<Longrightarrow> cell_at (put g c v) c' = (if c' = c then v else cell_at g c')"
  using wf_row[of g c] wf_row[of g c']
  by (cases c; cases c') (auto simp: cell_at_def put_def in_grid_def nth_list_update)

lemma wf_initial_grid: "wf_grid initial_grid"
  by (simp add: wf_grid_def initial_grid_def)

lemma cell_at_initial_grid: "in_grid c \<Longrightarrow> cell_at initial_grid c = 0"
  by (simp add: cell_at_def initial_grid_def in_grid_def)

subsection \<open>What the carving can reach\<close>

text \<open>
  The stack only ever holds cells with both coordinates odd (\<open>lattice\<close>); the cells
  the loop opens are those and the cells between two of them (\<open>passage\<close>): a cell
  with both coordinates even, or in the last interior column or row, is never opened.
\<close>

definition lattice :: "cell \<Rightarrow> bool" where
  "lattice c = (odd (fst c) \<and> odd (snd c) \<and> 1 \<le> fst c \<and> fst c \<le> GRID_COLS - 2
                \<and> 1 \<le> snd c \<and> snd c \<le> GRID_ROWS - 2)"

definition passage :: "cell \<Rightarrow> bool" where
  "passage c = (1 \<le> fst c \<and> fst c \<le> GRID_COLS - 3 \<and> 1 \<le> snd c \<and> snd c \<le> GRID_ROWS - 3
                \<and> (odd (fst c) \<or> odd (snd c)))"

lemma unvisited_wf:
  "wf_grid g \<Longrightarrow> \<forall>p \<in> set ps. in_grid p \<Longrightarrow> unvisited g ps = Inr (filter (\<lambda>p. cell_at g p = 0) ps)"
proof (induction ps)
  case Nil
  then show ?case by simp
next
  case (Cons p ps)
  then have "grid_get g (snd p) (fst p) = Inr (cell_at g p)"
    using grid_get_wf[of g "fst p" "snd p"] by simp
  with Cons show ?case by simp
qed

lemma lattice_in_grid: "lattice c \<Longrightarrow> in_grid c"
  by (auto simp: lattice_def in_grid_def GRID_COLS_def GRID_ROWS_def)

lemma lattice_passage: "lattice c \<Longrightarrow> passage c"
  by (auto simp: lattice_def passage_def GRID_COLS_def GRID_ROWS_def elim!: oddE)

lemma passage_in_grid: "passage c \<Longrightarrow> in_grid c"
  by (auto simp: passage_def in_grid_def GRID_COLS_def GRID_ROWS_def)

lemma neighbors_lattice:
  assumes "lattice (x, y)" and "(nx, ny) \<in> set (fst (neighbors s x y))"
  shows "lattice (nx, ny) \<and> passage ((x + nx) div 2, (y + ny) div 2)"
  using neighbors_cells[OF assms(2)] assms(1)
  by (auto simp: lattice_def passage_def GRID_COLS_def GRID_ROWS_def elim!: oddE)

lemma carve_inv:
  "wf_grid g \<Longrightarrow> \<forall>c \<in> set stack. lattice c \<Longrightarrow>
     \<exists>g' s'. carve s g stack = Inr (g', s') \<and> wf_grid g'
       \<and> (\<forall>c. in_grid c \<longrightarrow> (cell_at g c = 1 \<longrightarrow> cell_at g' c = 1)
                            \<and> (\<not> passage c \<longrightarrow> cell_at g' c = cell_at g c))"
proof (induction s g stack rule: carve.induct)
  case (1 s g)
  then show ?case by simp
next
  case (2 s g x y stack)
  obtain n s1 where ns: "neighbors s x y = (n, s1)"
    by (cases "neighbors s x y")
  have wf: "wf_grid g" and xy: "lattice (x, y)" and st: "\<forall>c \<in> set stack. lattice c"
    using "2.prems" by simp_all
  have nlat: "lattice p \<and> passage ((x + fst p) div 2, (y + snd p) div 2)" if "p \<in> set n" for p
    using neighbors_lattice[OF xy, of "fst p" "snd p" s] that ns by simp
  define nb where "nb = filter (\<lambda>p. cell_at g p = 0) n"
  have unv: "unvisited g n = Inr nb"
    unfolding nb_def using unvisited_wf[OF wf] nlat lattice_in_grid by blast
  show ?case
  proof (cases "nb = []")
    case True
    then have eq: "carve s g ((x, y) # stack) = carve s1 g stack"
      using ns unv by simp
    have "\<not> nb \<noteq> []" using True by simp
    from "2.IH"(2)[OF refl ns[symmetric] unv this wf st] eq
    show ?thesis by simp
  next
    case False
    obtain k s2 where rb: "randbelow s1 (length nb) = (k, s2)"
      by (cases "randbelow s1 (length nb)")
    then have k: "k < length nb"
      using False by (auto simp: randbelow_def)
    obtain nx ny where nk: "nb ! k = (nx, ny)"
      by (cases "nb ! k")
    have "(nx, ny) \<in> set nb" using k nk by (metis nth_mem)
    then have mem: "(nx, ny) \<in> set n" by (simp add: nb_def)
    let ?w = "((x + nx) div 2, (y + ny) div 2)"
    have lat: "lattice (nx, ny)" and pw: "passage ?w"
      using nlat[OF mem] by simp_all
    have iw: "in_grid ?w" and inb: "in_grid (nx, ny)"
      using pw lat passage_in_grid lattice_in_grid by blast+
    define g1 where "g1 = put g ?w 1"
    define g2 where "g2 = put g1 (nx, ny) 1"
    have gs1: "grid_set g ((y + ny) div 2) ((x + nx) div 2) 1 = Inr g1"
      unfolding g1_def using grid_set_wf[OF wf iw] .
    have wf1: "wf_grid g1"
      unfolding g1_def using wf_put[OF wf iw] .
    have gs2: "grid_set g1 ny nx 1 = Inr g2"
      unfolding g2_def using grid_set_wf[OF wf1 inb] .
    have wf2: "wf_grid g2"
      unfolding g2_def using wf_put[OF wf1 inb] .
    have st2: "\<forall>a \<in> set ((nx, ny) # (x, y) # stack). lattice a"
      using lat xy st by simp
    have eq: "carve s g ((x, y) # stack) = carve s2 g2 ((nx, ny) # (x, y) # stack)"
      using ns unv False rb nk gs1 gs2 by simp
    from "2.IH"(1)[OF refl ns[symmetric] unv False refl rb[symmetric] refl nk[symmetric]
        refl refl gs1 gs2 wf2 st2]
    obtain g' s' where res: "carve s2 g2 ((nx, ny) # (x, y) # stack) = Inr (g', s')" "wf_grid g'"
      and fr: "\<And>c. in_grid c \<Longrightarrow> (cell_at g2 c = 1 \<longrightarrow> cell_at g' c = 1)
                            \<and> (\<not> passage c \<longrightarrow> cell_at g' c = cell_at g2 c)"
      by blast
    have c2: "cell_at g2 c = (if c = (nx, ny) \<or> c = ?w then 1 else cell_at g c)" if "in_grid c" for c
    proof -
      have a: "cell_at g1 c = (if c = ?w then 1 else cell_at g c)"
        unfolding g1_def by (rule cell_at_put[OF wf iw that])
      have b: "cell_at g2 c = (if c = (nx, ny) then 1 else cell_at g1 c)"
        unfolding g2_def by (rule cell_at_put[OF wf1 inb that])
      show ?thesis unfolding b a by simp
    qed
    have "(cell_at g c = 1 \<longrightarrow> cell_at g' c = 1) \<and> (\<not> passage c \<longrightarrow> cell_at g' c = cell_at g c)"
      if "in_grid c" for c
      using fr[OF that] c2[OF that] pw lattice_passage[OF lat] by auto
    with res eq show ?thesis by simp
  qed
qed

lemma block_cells_inv:
  "wf_grid g \<Longrightarrow> \<forall>c \<in> set cs. in_grid c \<Longrightarrow>
     \<exists>g' s'. block_cells chance cs g s = Inr (g', s') \<and> wf_grid g'
       \<and> (\<forall>c. in_grid c \<longrightarrow> (cell_at g c = 0 \<longrightarrow> cell_at g' c = 0)
              \<and> (c = (1, 1) \<or> c = (GRID_COLS - 2, GRID_ROWS - 2) \<longrightarrow> cell_at g' c = cell_at g c))"
proof (induction cs arbitrary: g s)
  case Nil
  then show ?case by simp
next
  case (Cons c cs)
  obtain rx ry where c: "c = (rx, ry)" by (cases c)
  have wf: "wf_grid g" and ic: "in_grid (rx, ry)" and rest: "\<forall>c \<in> set cs. in_grid c"
    using Cons.prems c by simp_all
  obtain r s1 where ri: "randint 1 100 s = (r, s1)" by (cases "randint 1 100 s")
  have gg: "grid_get g ry rx = Inr (cell_at g (rx, ry))"
    using grid_get_wf[OF wf ic] .
  have step: "(\<exists>s2. block_cells chance (c # cs) g s = block_cells chance cs g s2)
      \<or> ((rx, ry) \<noteq> (1, 1) \<and> (rx, ry) \<noteq> (GRID_COLS - 2, GRID_ROWS - 2)
          \<and> block_cells chance (c # cs) g s = block_cells chance cs (put g (rx, ry) 0) s1)"
  proof (cases "(rx, ry) = (1, 1) \<or> (rx, ry) = (GRID_COLS - 2, GRID_ROWS - 2)")
    case True
    then have "block_cells chance (c # cs) g s = block_cells chance cs g s"
      unfolding c by auto
    then show ?thesis by blast
  next
    case exempt: False
    show ?thesis
    proof (cases "cell_at g (rx, ry) = 1")
      case False
      then have "block_cells chance (c # cs) g s = block_cells chance cs g s"
        unfolding c using exempt gg by auto
      then show ?thesis by blast
    next
      case free: True
      show ?thesis
      proof (cases "r \<le> chance")
        case True
        then have "block_cells chance (c # cs) g s = block_cells chance cs (put g (rx, ry) 0) s1"
          unfolding c using exempt gg free ri grid_set_wf[OF wf ic, of 0] by auto
        then show ?thesis using exempt by blast
      next
        case False
        then have "block_cells chance (c # cs) g s = block_cells chance cs g s1"
          unfolding c using exempt gg free ri by auto
        then show ?thesis by blast
      qed
    qed
  qed
  then consider (skip) s2 where "block_cells chance (c # cs) g s = block_cells chance cs g s2"
    | (block) "(rx, ry) \<noteq> (1, 1)" "(rx, ry) \<noteq> (GRID_COLS - 2, GRID_ROWS - 2)"
        "block_cells chance (c # cs) g s = block_cells chance cs (put g (rx, ry) 0) s1"
    by blast
  then show ?case
  proof cases
    case skip
    with Cons.IH[OF wf rest, of s2] show ?thesis by simp
  next
    case block
    let ?g1 = "put g (rx, ry) 0"
    have wf1: "wf_grid ?g1" using wf_put[OF wf ic] .
    from Cons.IH[OF wf1 rest, of s1]
    obtain g' s' where res: "block_cells chance cs ?g1 s1 = Inr (g', s')" "wf_grid g'"
      and fr: "\<And>c. in_grid c \<Longrightarrow> (cell_at ?g1 c = 0 \<longrightarrow> cell_at g' c = 0)
              \<and> (c = (1, 1) \<or> c = (GRID_COLS - 2, GRID_ROWS - 2) \<longrightarrow> cell_at g' c = cell_at ?g1 c)"
      by blast
    have "(cell_at g c = 0 \<longrightarrow> cell_at g' c = 0)
              \<and> (c = (1, 1) \<or> c = (GRID_COLS - 2, GRID_ROWS - 2) \<longrightarrow> cell_at g' c = cell_at g c)"
      if "in_grid c" for c
      using fr[OF that] cell_at_put[OF wf ic that, of 0] block(1,2) by auto
    with res block(3) show ?thesis by simp
  qed
qed

lemma stamp_rows_inv:
  "wf_grid g \<Longrightarrow> \<forall>x \<in> set xs. 0 \<le> x \<and> x < GRID_COLS \<Longrightarrow>
     \<exists>g'. stamp_rows g xs = Inr g' \<and> wf_grid g'
       \<and> (\<forall>c. in_grid c \<longrightarrow>
             cell_at g' c = (if (snd c = 0 \<or> snd c = GRID_ROWS - 1) \<and> fst c \<in> set xs then 0
                             else cell_at g c))"
proof (induction xs arbitrary: g)
  case Nil
  then show ?case by simp
next
  case (Cons x xs)
  have wf: "wf_grid g" and rest: "\<forall>x \<in> set xs. 0 \<le> x \<and> x < GRID_COLS"
    and x: "0 \<le> x" "x < GRID_COLS"
    using Cons.prems by simp_all
  have i1: "in_grid (x, 0)" and i2: "in_grid (x, GRID_ROWS - 1)"
    using x by (simp_all add: in_grid_def GRID_ROWS_def)
  let ?g1 = "put g (x, 0) 0"
  let ?g2 = "put ?g1 (x, GRID_ROWS - 1) 0"
  have wf1: "wf_grid ?g1" using wf_put[OF wf i1] .
  have wf2: "wf_grid ?g2" using wf_put[OF wf1 i2] .
  have eq: "stamp_rows g (x # xs) = stamp_rows ?g2 xs"
    using grid_set_wf[OF wf i1, of 0] grid_set_wf[OF wf1 i2, of 0] by simp
  from Cons.IH[OF wf2 rest]
  obtain g' where res: "stamp_rows ?g2 xs = Inr g'" "wf_grid g'"
    and fr: "\<And>c. in_grid c \<Longrightarrow>
             cell_at g' c = (if (snd c = 0 \<or> snd c = GRID_ROWS - 1) \<and> fst c \<in> set xs then 0
                             else cell_at ?g2 c)"
    by blast
  have "cell_at g' c = (if (snd c = 0 \<or> snd c = GRID_ROWS - 1) \<and> fst c \<in> set (x # xs) then 0
                             else cell_at g c)"
    if "in_grid c" for c
    using fr[OF that] cell_at_put[OF wf1 i2 that, of 0] cell_at_put[OF wf i1 that, of 0]
    by (cases c) auto
  with res eq show ?case by simp
qed

lemma stamp_cols_inv:
  "wf_grid g \<Longrightarrow> \<forall>y \<in> set ys. 0 \<le> y \<and> y < GRID_ROWS \<Longrightarrow>
     \<exists>g'. stamp_cols g ys = Inr g' \<and> wf_grid g'
       \<and> (\<forall>c. in_grid c \<longrightarrow>
             cell_at g' c = (if (fst c = 0 \<or> fst c = GRID_COLS - 1) \<and> snd c \<in> set ys then 0
                             else cell_at g c))"
proof (induction ys arbitrary: g)
  case Nil
  then show ?case by simp
next
  case (Cons y ys)
  have wf: "wf_grid g" and rest: "\<forall>y \<in> set ys. 0 \<le> y \<and> y < GRID_ROWS"
    and y: "0 \<le> y" "y < GRID_ROWS"
    using Cons.prems by simp_all
  have i1: "in_grid (0, y)" and i2: "in_grid (GRID_COLS - 1, y)"
    using y by (simp_all add: in_grid_def GRID_COLS_def)
  let ?g1 = "put g (0, y) 0"
  let ?g2 = "put ?g1 (GRID_COLS - 1, y) 0"
  have wf1: "wf_grid ?g1" using wf_put[OF wf i1] .
  have wf2: "wf_grid ?g2" using wf_put[OF wf1 i2] .
  have eq: "stamp_cols g (y # ys) = stamp_cols ?g2 ys"
    using grid_set_wf[OF wf i1, of 0] grid_set_wf[OF wf1 i2, of 0] by simp
  from Cons.IH[OF wf2 rest]
  obtain g' where res: "stamp_cols ?g2 ys = Inr g'" "wf_grid g'"
    and fr: "\<And>c. in_grid c \<Longrightarrow>
             cell_at g' c = (if (fst c = 0 \<or> fst c = GRID_COLS - 1) \<and> snd c \<in> set ys then 0
                             else cell_at ?g2 c)"
    by blast
  have "cell_at g' c = (if (fst c = 0 \<or> fst c = GRID_COLS - 1) \<and> snd c \<in> set (y # ys) then 0
                             else cell_at g c)"
    if "in_grid c" for c
    using fr[OF that] cell_at_put[OF wf1 i2 that, of 0] cell_at_put[OF wf i1 that, of 0]
    by (cases c) auto
  with res eq show ?case by simp
qed

text \<open>The outermost ring: row 0, the last row, column 0 and the last column.\<close>

definition on_ring :: "cell \<Rightarrow> bool" where
  "on_ring c = (fst c = 0 \<or> fst c = GRID_COLS - 1 \<or> snd c = 0 \<or> snd c = GRID_ROWS - 1)"

lemma interior_cells_in_grid: "\<forall>c \<in> set interior_cells. in_grid c"
  by (auto simp: interior_cells_def in_grid_def GRID_COLS_def GRID_ROWS_def)

lemma generate_maze_result:
  "\<exists>g s'. generate_maze s level = Inr (g, s') \<and> wf_grid g
     \<and> cell_at g (1, 1) = 1
     \<and> cell_at g (GRID_COLS - 2, GRID_ROWS - 2) = 0
     \<and> (\<forall>c. in_grid c \<longrightarrow> on_ring c \<longrightarrow> cell_at g c = 0)"
proof -
  have i11: "in_grid (1, 1)" and iex: "in_grid (GRID_COLS - 2, GRID_ROWS - 2)"
    by (simp_all add: in_grid_def GRID_COLS_def GRID_ROWS_def)
  have nring: "\<not> on_ring (1, 1)" "\<not> on_ring (GRID_COLS - 2, GRID_ROWS - 2)"
    by (simp_all add: on_ring_def GRID_COLS_def GRID_ROWS_def)
  have npass: "\<not> passage (GRID_COLS - 2, GRID_ROWS - 2)"
    by (simp add: passage_def GRID_COLS_def GRID_ROWS_def)
  let ?g1 = "put initial_grid (1, 1) 1"
  have s1: "grid_set initial_grid 1 1 1 = Inr ?g1"
    using grid_set_wf[OF wf_initial_grid i11] .
  have wf1: "wf_grid ?g1" using wf_put[OF wf_initial_grid i11] .
  have c1: "cell_at ?g1 c = (if c = (1, 1) then 1 else 0)" if "in_grid c" for c
    using cell_at_put[OF wf_initial_grid i11 that, of 1] cell_at_initial_grid[OF that] by simp
  have "\<forall>c \<in> set [(1, 1)]. lattice c"
    by (simp add: lattice_def GRID_COLS_def GRID_ROWS_def)
  from carve_inv[OF wf1 this, of s]
  obtain g2 s2 where r2: "carve s ?g1 [(1, 1)] = Inr (g2, s2)" and wf2: "wf_grid g2"
    and f2: "\<And>c. in_grid c \<Longrightarrow> (cell_at ?g1 c = 1 \<longrightarrow> cell_at g2 c = 1)
                            \<and> (\<not> passage c \<longrightarrow> cell_at g2 c = cell_at ?g1 c)"
    by blast
  from block_cells_inv[OF wf2 interior_cells_in_grid, of "extra_block_chance level" s2]
  obtain g3 s3 where r3: "block_cells (extra_block_chance level) interior_cells g2 s2 = Inr (g3, s3)"
    and wf3: "wf_grid g3"
    and f3: "\<And>c. in_grid c \<Longrightarrow> (cell_at g2 c = 0 \<longrightarrow> cell_at g3 c = 0)
              \<and> (c = (1, 1) \<or> c = (GRID_COLS - 2, GRID_ROWS - 2) \<longrightarrow> cell_at g3 c = cell_at g2 c)"
    by blast
  have "\<forall>x \<in> set [0..GRID_COLS - 1]. 0 \<le> x \<and> x < GRID_COLS" by simp
  from stamp_rows_inv[OF wf3 this]
  obtain g4 where r4: "stamp_rows g3 [0..GRID_COLS - 1] = Inr g4" and wf4: "wf_grid g4"
    and f4: "\<And>c. in_grid c \<Longrightarrow>
             cell_at g4 c = (if (snd c = 0 \<or> snd c = GRID_ROWS - 1) \<and> fst c \<in> set [0..GRID_COLS - 1]
                             then 0 else cell_at g3 c)"
    by blast
  have "\<forall>y \<in> set [0..GRID_ROWS - 1]. 0 \<le> y \<and> y < GRID_ROWS" by simp
  from stamp_cols_inv[OF wf4 this]
  obtain g5 where r5: "stamp_cols g4 [0..GRID_ROWS - 1] = Inr g5" and wf5: "wf_grid g5"
    and f5: "\<And>c. in_grid c \<Longrightarrow>
             cell_at g5 c = (if (fst c = 0 \<or> fst c = GRID_COLS - 1) \<and> snd c \<in> set [0..GRID_ROWS - 1]
                             then 0 else cell_at g4 c)"
    by blast
  have res: "generate_maze s level = Inr (g5, s3)"
    by (simp add: generate_maze_def s1 r2 r3 r4 r5 del: carve.simps)
  have spawn: "cell_at g5 (1, 1) = 1"
    using f5[OF i11] f4[OF i11] f3[OF i11] f2[OF i11] c1[OF i11]
    by (simp add: GRID_COLS_def GRID_ROWS_def)
  have "cell_at g2 (GRID_COLS - 2, GRID_ROWS - 2) = 0"
    using f2[OF iex] c1[OF iex] npass by (simp add: GRID_COLS_def GRID_ROWS_def)
  then have exit: "cell_at g5 (GRID_COLS - 2, GRID_ROWS - 2) = 0"
    using f5[OF iex] f4[OF iex] f3[OF iex] by (simp split: if_splits)
  have ring: "cell_at g5 c = 0" if "in_grid c" "on_ring c" for c
    using f5[OF that(1)] f4[OF that(1)] that
    by (auto simp: on_ring_def in_grid_def split: if_splits)
  show ?thesis
    using res wf5 spawn exit ring by blast
qed

text \<open>
  C9. For every level number and every sequence of random draws, \<^verbatim>\<open>generate_maze\<close>
  returns a grid of the fixed size, and every cell of its outermost ring (row 0, row
  \<open>GRID_ROWS - 1\<close>, column 0, column \<open>GRID_COLS - 1\<close>) is a wall.
\<close>

theorem generate_maze_border_walls:
  "\<exists>g s'. generate_maze s level = Inr (g, s')
     \<and> length g = nat GRID_ROWS \<and> (\<forall>row \<in> set g. length row = nat GRID_COLS)
     \<and> (\<forall>x y. 0 \<le> x \<and> x < GRID_COLS \<and> 0 \<le> y \<and> y < GRID_ROWS
              \<and> (y = 0 \<or> y = GRID_ROWS - 1 \<or> x = 0 \<or> x = GRID_COLS - 1)
            \<longrightarrow> grid_get g y x = Inr 0)"
proof -
  from generate_maze_result[of s level]
  obtain g s' where res: "generate_maze s level = Inr (g, s')" and wf: "wf_grid g"
    and ring: "\<And>c. in_grid c \<Longrightarrow> on_ring c \<Longrightarrow> cell_at g c = 0"
    by blast
  have "grid_get g y x = Inr 0"
    if "0 \<le> x \<and> x < GRID_COLS \<and> 0 \<le> y \<and> y < GRID_ROWS
        \<and> (y = 0 \<or> y = GRID_ROWS - 1 \<or> x = 0 \<or> x = GRID_COLS - 1)" for x y
  proof -
    have i: "in_grid (x, y)" and r: "on_ring (x, y)"
      using that by (auto simp: in_grid_def on_ring_def)
    show ?thesis
      using grid_get_wf[OF wf i] ring[OF i r] by simp
  qed
  with res wf show ?thesis
    unfolding wf_grid_def by blast
qed

theorem generate_maze_border_walls_witness:
  "\<exists>g s'. generate_maze (\<lambda>i. i) 7 = Inr (g, s')
     \<and> grid_get g 0 0 = Inr 0 \<and> grid_get g 17 5 = Inr 0
     \<and> grid_get g 9 0 = Inr 0 \<and> grid_get g 16 21 = Inr 0"
proof -
  from generate_maze_border_walls[of "\<lambda>i. i" 7]
  obtain g s' where res: "generate_maze (\<lambda>i. i) 7 = Inr (g, s')"
    and ring: "\<And>x y. 0 \<le> x \<and> x < GRID_COLS \<and> 0 \<le> y \<and> y < GRID_ROWS
              \<and> (y = 0 \<or> y = GRID_ROWS - 1 \<or> x = 0 \<or> x = GRID_COLS - 1)
            \<Longrightarrow> grid_get g y x = Inr 0"
    by blast
  have "grid_get g 0 0 = Inr 0" "grid_get g 17 5 = Inr 0"
    "grid_get g 9 0 = Inr 0" "grid_get g 16 21 = Inr 0"
    by (rule ring; simp add: GRID_COLS_def GRID_ROWS_def)+
  with res show ?thesis by blast
qed

text \<open>
  C1. For every level number and every sequence of random draws, the grid that
  \<^verbatim>\<open>generate_maze\<close> returns has the spawn cell (column 1, row 1) free, but the exit
  cell (column \<open>GRID_COLS - 2\<close>, row \<open>GRID_ROWS - 2\<close>) is a wall: both its
  coordinates are even, and the carving opens no such cell.
\<close>

theorem generate_maze_exit_is_wall:
  "\<exists>g s'. generate_maze s level = Inr (g, s')
     \<and> grid_get g 1 1 = Inr 1
     \<and> grid_get g (GRID_ROWS - 2) (GRID_COLS - 2) = Inr 0"
proof -
  have i11: "in_grid (1, 1)" and iex: "in_grid (GRID_COLS - 2, GRID_ROWS - 2)"
    by (simp_all add: in_grid_def GRID_COLS_def GRID_ROWS_def)
  from generate_maze_result[of s level]
  obtain g s' where res: "generate_maze s level = Inr (g, s')" and wf: "wf_grid g"
    and c: "cell_at g (1, 1) = 1" "cell_at g (GRID_COLS - 2, GRID_ROWS - 2) = 0"
    by blast
  show ?thesis
    using res grid_get_wf[OF wf i11] grid_get_wf[OF wf iex] c by simp
qed

theorem generate_maze_exit_is_wall_witness:
  "\<exists>g s'. generate_maze (\<lambda>i. i) 1 = Inr (g, s') \<and> grid_get g 1 1 = Inr 1 \<and> grid_get g 16 20 = Inr 0"
  using generate_maze_exit_is_wall[of "\<lambda>i. i" 1]
  by (simp add: GRID_COLS_def GRID_ROWS_def)

section \<open>Breadth-first search\<close>

text \<open>
  \<^verbatim>\<open>bfs_path(grid, start, goal)\<close>. The dict \<^verbatim>\<open>came\<close> maps a cell to its
  predecessor, or to \<^verbatim>\<open>None\<close> for the start: a map into \<open>cell option\<close>, where a
  key that is absent maps to \<open>None\<close> and the start maps to \<open>Some None\<close>. The deque
  is a list with its left end first.
\<close>

type_synonym came_from = "cell \<Rightarrow> cell option option"

definition dirs :: "(int \<times> int) list" where
  "dirs = [(1, 0), (-1, 0), (0, 1), (0, -1)]"

text \<open>The body of \<^verbatim>\<open>for dx,dy in dirs\<close> for one direction.\<close>

fun visit :: "grid \<Rightarrow> cell \<Rightarrow> cell list \<times> came_from \<Rightarrow> int \<times> int
                \<Rightarrow> py_error + (cell list \<times> came_from)" where
  "visit grid cur (q, came) d =
     (let nx = fst cur + fst d; ny = snd cur + snd d in
      if 0 \<le> nx \<and> nx < GRID_COLS \<and> 0 \<le> ny \<and> ny < GRID_ROWS then
        (case grid_get grid ny nx of
           Inl e \<Rightarrow> Inl e
         | Inr v \<Rightarrow>
             if v = 1 \<and> came (nx, ny) = None
             then Inr (q @ [(nx, ny)], came((nx, ny) \<mapsto> Some cur))
             else Inr (q, came))
      else Inr (q, came))"

fun expand :: "grid \<Rightarrow> cell \<Rightarrow> (int \<times> int) list \<Rightarrow> cell list \<times> came_from
                 \<Rightarrow> py_error + (cell list \<times> came_from)" where
  "expand grid cur [] st = Inr st"
| "expand grid cur (d # ds) st =
     (case visit grid cur st d of
        Inl e \<Rightarrow> Inl e
      | Inr st' \<Rightarrow> expand grid cur ds st')"

text \<open>The cells inside the grid that are not yet keys of \<^verbatim>\<open>came\<close>: the loop uses them up.\<close>

definition unseen :: "came_from \<Rightarrow> nat" where
  "unseen came = card {c. in_grid c \<and> came c = None}"

lemma finite_in_grid: "finite {c. in_grid c \<and> P c}"
proof -
  have "{c. in_grid c \<and> P c} \<subseteq> {0..<GRID_COLS} \<times> {0..<GRID_ROWS}"
    by (auto simp: in_grid_def)
  then show ?thesis
    by (rule finite_subset) simp
qed

lemma unseen_update:
  assumes "in_grid c" and "came c = None"
  shows "Suc (unseen (came(c \<mapsto> v))) = unseen came"
proof -
  let ?A = "{c'. in_grid c' \<and> came c' = None}"
  have eq: "{c'. in_grid c' \<and> (came(c \<mapsto> v)) c' = None} = ?A - {c}"
    by auto
  have mem: "c \<in> ?A"
    using assms by simp
  have fin: "finite ?A"
    by (rule finite_in_grid)
  have "Suc (card (?A - {c})) = card ?A"
    using fin mem by (rule card_Suc_Diff1)
  then show ?thesis
    unfolding unseen_def eq .
qed

lemma visit_cases:
  assumes "visit g cur (q, came) d = Inr (q', came')"
  shows "(q' = q \<and> came' = came)
       \<or> (in_grid (fst cur + fst d, snd cur + snd d)
          \<and> came (fst cur + fst d, snd cur + snd d) = None
          \<and> grid_get g (snd cur + snd d) (fst cur + fst d) = Inr 1
          \<and> q' = q @ [(fst cur + fst d, snd cur + snd d)]
          \<and> came' = came((fst cur + fst d, snd cur + snd d) \<mapsto> Some cur))"
proof (cases "0 \<le> fst cur + fst d \<and> fst cur + fst d < GRID_COLS
              \<and> 0 \<le> snd cur + snd d \<and> snd cur + snd d < GRID_ROWS")
  case False
  with assms show ?thesis by (simp add: Let_def)
next
  case inb: True
  then have ig: "in_grid (fst cur + fst d, snd cur + snd d)"
    by (simp add: in_grid_def)
  show ?thesis
  proof (cases "grid_get g (snd cur + snd d) (fst cur + fst d)")
    case (Inl e)
    with assms inb show ?thesis by (simp add: Let_def)
  next
    case (Inr v)
    show ?thesis
    proof (cases "v = 1 \<and> came (fst cur + fst d, snd cur + snd d) = None")
      case True
      with assms inb Inr ig show ?thesis by (simp add: Let_def)
    next
      case False
      with assms inb Inr have "q' = q \<and> came' = came"
        by (simp add: Let_def split: if_splits)
      then show ?thesis by simp
    qed
  qed
qed

lemma visit_measure:
  assumes "visit g cur (q, came) d = Inr (q', came')"
  shows "2 * unseen came' + length q' \<le> 2 * unseen came + length q"
  using visit_cases[OF assms]
proof
  assume "q' = q \<and> came' = came"
  then show ?thesis by simp
next
  let ?n = "(fst cur + fst d, snd cur + snd d)"
  assume h: "in_grid ?n \<and> came ?n = None
          \<and> grid_get g (snd cur + snd d) (fst cur + fst d) = Inr 1
          \<and> q' = q @ [?n] \<and> came' = came(?n \<mapsto> Some cur)"
  then have "Suc (unseen came') = unseen came"
    using unseen_update[of ?n came "Some cur"] by simp
  with h show ?thesis by simp
qed

lemma expand_measure:
  "expand g cur ds (q, came) = Inr (q', came') \<Longrightarrow>
     2 * unseen came' + length q' \<le> 2 * unseen came + length q"
proof (induction ds arbitrary: q came)
  case Nil
  then show ?case by simp
next
  case (Cons d ds)
  from Cons.prems obtain q1 came1 where v: "visit g cur (q, came) d = Inr (q1, came1)"
    and e: "expand g cur ds (q1, came1) = Inr (q', came')"
    by (auto split: sum.splits)
  from visit_measure[OF v] Cons.IH[OF e] show ?case by linarith
qed

text \<open>The \<^verbatim>\<open>while q:\<close> loop, with its \<^verbatim>\<open>break\<close> when the goal is dequeued.\<close>

function bfs_loop :: "grid \<Rightarrow> cell \<Rightarrow> cell list \<Rightarrow> came_from \<Rightarrow> py_error + came_from" where
  "bfs_loop grid goal [] came = Inr came"
| "bfs_loop grid goal (cur # q) came =
     (if cur = goal then Inr came
      else (case expand grid cur dirs (q, came) of
              Inl e \<Rightarrow> Inl e
            | Inr (q', came') \<Rightarrow> bfs_loop grid goal q' came'))"
  by pat_completeness auto
termination
proof (relation "measure (\<lambda>(grid, goal, q, came). 2 * unseen came + length q)", goal_cases)
  case 1
  then show ?case by simp
next
  case (2 grid goal cur q came st q' came')
  then have "expand grid cur dirs (q, came) = Inr (q', came')" by simp
  from expand_measure[OF this] show ?case by simp
qed

text \<open>
  The reconstruction loop \<^verbatim>\<open>while cur: path.append(cur); cur = came[cur]\<close>. On an
  arbitrary dict it can run forever (a cycle) or raise \<open>KeyError\<close>; not returning is
  the value \<open>None\<close>. A cell is a non-empty tuple, so it is true as a condition.
\<close>

partial_function (option) follow ::
    "came_from \<Rightarrow> cell option \<Rightarrow> cell list \<Rightarrow> (py_error + cell list) option" where
  "follow came cur path =
     (case cur of
        None \<Rightarrow> Some (Inr path)
      | Some c \<Rightarrow>
          (case came c of
             None \<Rightarrow> Some (Inl KeyError)
           | Some nxt \<Rightarrow> follow came nxt (path @ [c])))"

text \<open>
  The result of \<^verbatim>\<open>bfs_path\<close>: \<open>None\<close> when the call does not return,
  \<open>Some (Inl e)\<close> when it raises, \<open>Some (Inr None)\<close> when it returns
  \<^verbatim>\<open>None\<close> (no path) and \<open>Some (Inr (Some p))\<close> when it returns the path \<open>p\<close>.
\<close>

definition bfs_path :: "grid \<Rightarrow> cell \<Rightarrow> cell \<Rightarrow> (py_error + cell list option) option" where
  "bfs_path grid start goal =
     (if start = goal then Some (Inr (Some [start]))
      else (case bfs_loop grid goal [start] [start \<mapsto> None] of
              Inl e \<Rightarrow> Some (Inl e)
            | Inr came \<Rightarrow>
                if came goal = None then Some (Inr None)
                else (case follow came (Some goal) [] of
                        None \<Rightarrow> None
                      | Some (Inl e) \<Rightarrow> Some (Inl e)
                      | Some (Inr path) \<Rightarrow> Some (Inr (Some (rev path))))))"


declare visit.simps [simp del]

subsection \<open>The graph the search runs on\<close>

text \<open>
  A cell is free when it lies inside the grid and the grid holds 1 there. A step leads
  from a cell to one of its four neighbours, if that neighbour is free: the search never
  reads the cell it starts from.
\<close>

definition nbr :: "cell \<Rightarrow> int \<times> int \<Rightarrow> cell" where
  "nbr c d = (fst c + fst d, snd c + snd d)"

definition is_free :: "grid \<Rightarrow> cell \<Rightarrow> bool" where
  "is_free g c = (in_grid c \<and> grid_get g (snd c) (fst c) = Inr 1)"

definition step_ok :: "grid \<Rightarrow> cell \<Rightarrow> cell \<Rightarrow> bool" where
  "step_ok g a b = (b \<in> set (map (nbr a) dirs) \<and> is_free g b)"

definition discovered :: "grid \<Rightarrow> cell \<Rightarrow> came_from \<Rightarrow> cell list" where
  "discovered g cur came = filter (\<lambda>n. is_free g n \<and> came n = None) (map (nbr cur) dirs)"

lemma visit_alt:
  "visit g cur (q, came) d =
     (if in_grid (nbr cur d) then
        (case grid_get g (snd (nbr cur d)) (fst (nbr cur d)) of
           Inl e \<Rightarrow> Inl e
         | Inr v \<Rightarrow>
             if v = 1 \<and> came (nbr cur d) = None
             then Inr (q @ [nbr cur d], came(nbr cur d \<mapsto> Some cur))
             else Inr (q, came))
      else Inr (q, came))"
  unfolding visit.simps Let_def in_grid_def nbr_def fst_conv snd_conv by (rule refl)

lemma is_free_cell_at: "wf_grid g \<Longrightarrow> is_free g c = (in_grid c \<and> cell_at g c = 1)"
  using grid_get_wf[of g "fst c" "snd c"] by (auto simp: is_free_def)

lemma visit_wf_new:
  assumes "wf_grid g" and "is_free g (nbr cur d)" and "came (nbr cur d) = None"
  shows "visit g cur (q, came) d = Inr (q @ [nbr cur d], came(nbr cur d \<mapsto> Some cur))"
  unfolding visit_alt using assms(2,3) by (simp add: is_free_def)

lemma visit_wf_old:
  assumes "wf_grid g" and "\<not> is_free g (nbr cur d) \<or> came (nbr cur d) \<noteq> None"
  shows "visit g cur (q, came) d = Inr (q, came)"
proof (cases "in_grid (nbr cur d)")
  case False
  then show ?thesis unfolding visit_alt by simp
next
  case True
  have gg: "grid_get g (snd (nbr cur d)) (fst (nbr cur d)) = Inr (cell_at g (nbr cur d))"
    using grid_get_wf[OF assms(1), of "fst (nbr cur d)" "snd (nbr cur d)"] True by simp
  from assms(2) show ?thesis
  proof
    assume "\<not> is_free g (nbr cur d)"
    then have "cell_at g (nbr cur d) \<noteq> 1" using True gg by (simp add: is_free_def)
    then show ?thesis unfolding visit_alt gg using True by simp
  next
    assume "came (nbr cur d) \<noteq> None"
    then show ?thesis unfolding visit_alt gg using True by auto
  qed
qed

lemma expand_wf:
  assumes "wf_grid g"
  shows "distinct (map (nbr cur) ds) \<Longrightarrow>
         expand g cur ds (q, came) =
           Inr (q @ filter (\<lambda>n. is_free g n \<and> came n = None) (map (nbr cur) ds),
                \<lambda>c. if c \<in> set (filter (\<lambda>n. is_free g n \<and> came n = None) (map (nbr cur) ds))
                     then Some (Some cur) else came c)"
proof (induction ds arbitrary: q came)
  case Nil
  then show ?case by simp
next
  case (Cons d ds)
  let ?n = "nbr cur d"
  let ?rest = "map (nbr cur) ds"
  have notin: "?n \<notin> set ?rest" and dist: "distinct ?rest"
    using Cons.prems by simp_all
  show ?case
  proof (cases "is_free g ?n \<and> came ?n = None")
    case True
    let ?came1 = "came(?n \<mapsto> Some cur)"
    have same: "filter (\<lambda>m. is_free g m \<and> ?came1 m = None) ?rest
              = filter (\<lambda>m. is_free g m \<and> came m = None) ?rest"
      using notin by (intro filter_cong) auto
    have v: "visit g cur (q, came) d = Inr (q @ [?n], ?came1)"
      using visit_wf_new[OF assms] True by blast
    have "expand g cur (d # ds) (q, came) = expand g cur ds (q @ [?n], ?came1)"
      unfolding expand.simps v by simp
    also have "\<dots> = Inr ((q @ [?n]) @ filter (\<lambda>m. is_free g m \<and> came m = None) ?rest,
                \<lambda>c. if c \<in> set (filter (\<lambda>m. is_free g m \<and> came m = None) ?rest)
                     then Some (Some cur) else ?came1 c)"
      using Cons.IH[OF dist, of "q @ [?n]" ?came1] unfolding same .
    also have "\<dots> = Inr (q @ filter (\<lambda>n. is_free g n \<and> came n = None) (map (nbr cur) (d # ds)),
                \<lambda>c. if c \<in> set (filter (\<lambda>n. is_free g n \<and> came n = None) (map (nbr cur) (d # ds)))
                     then Some (Some cur) else came c)"
      using True by (auto intro!: ext)
    finally show ?thesis .
  next
    case False
    then have f: "filter (\<lambda>n. is_free g n \<and> came n = None) (map (nbr cur) (d # ds))
                = filter (\<lambda>n. is_free g n \<and> came n = None) ?rest"
      by auto
    have v: "visit g cur (q, came) d = Inr (q, came)"
      using visit_wf_old[OF assms] False by blast
    have "expand g cur (d # ds) (q, came) = expand g cur ds (q, came)"
      unfolding expand.simps v by simp
    then show ?thesis
      unfolding f using Cons.IH[OF dist, of q came] by simp
  qed
qed

lemma distinct_nbrs: "distinct (map (nbr cur) dirs)"
  by (simp add: dirs_def nbr_def)

lemma bfs_loop_step:
  assumes "wf_grid g" and "cur \<noteq> goal"
  shows "bfs_loop g goal (cur # q) came =
           bfs_loop g goal (q @ discovered g cur came)
             (\<lambda>c. if c \<in> set (discovered g cur came) then Some (Some cur) else came c)"
  using assms(2) expand_wf[OF assms(1) distinct_nbrs, of cur q came]
  by (simp add: discovered_def)

subsection \<open>The invariant of the search loop\<close>

text \<open>
  \<open>lab\<close> gives every key of \<^verbatim>\<open>came\<close> its depth in the predecessor tree. The
  queue holds keys in order of depth, spanning at most two depths; a key that has left
  the queue has all its free neighbours among the keys, none deeper than one level below
  it, and is no deeper than any key still queued.
\<close>

definition bfs_inv :: "grid \<Rightarrow> cell \<Rightarrow> (cell \<Rightarrow> nat) \<Rightarrow> cell list \<Rightarrow> came_from \<Rightarrow> bool" where
  "bfs_inv g s lab q came =
     (came s = Some None \<and> lab s = 0
      \<and> (\<forall>c p. came c = Some (Some p) \<longrightarrow>
             came p \<noteq> None \<and> p \<notin> set q \<and> step_ok g p c \<and> lab c = Suc (lab p))
      \<and> (\<forall>c. came c = Some None \<longrightarrow> c = s)
      \<and> (\<forall>c \<in> set q. came c \<noteq> None) \<and> distinct q
      \<and> sorted (map lab q) \<and> (q \<noteq> [] \<longrightarrow> lab (last q) \<le> Suc (lab (hd q)))
      \<and> (\<forall>c n. came c \<noteq> None \<and> c \<notin> set q \<and> step_ok g c n \<longrightarrow>
             came n \<noteq> None \<and> lab n \<le> Suc (lab c))
      \<and> (\<forall>c x. came c \<noteq> None \<and> c \<notin> set q \<and> x \<in> set q \<longrightarrow> lab c \<le> lab x))"

lemma bfs_invD:
  assumes "bfs_inv g s lab q came"
  shows "came s = Some None" and "lab s = 0"
    and "\<And>c p. came c = Some (Some p) \<Longrightarrow>
             came p \<noteq> None \<and> p \<notin> set q \<and> step_ok g p c \<and> lab c = Suc (lab p)"
    and "\<And>c. came c = Some None \<Longrightarrow> c = s"
    and "\<And>c. c \<in> set q \<Longrightarrow> came c \<noteq> None" and "distinct q"
    and "sorted (map lab q)" and "q \<noteq> [] \<Longrightarrow> lab (last q) \<le> Suc (lab (hd q))"
    and "\<And>c n. came c \<noteq> None \<Longrightarrow> c \<notin> set q \<Longrightarrow> step_ok g c n \<Longrightarrow>
             came n \<noteq> None \<and> lab n \<le> Suc (lab c)"
    and "\<And>c x. came c \<noteq> None \<Longrightarrow> c \<notin> set q \<Longrightarrow> x \<in> set q \<Longrightarrow> lab c \<le> lab x"
  using assms unfolding bfs_inv_def by blast+

lemma bfs_inv_init: "bfs_inv g s (\<lambda>c. 0) [s] [s \<mapsto> None]"
  by (simp add: bfs_inv_def)

lemma sorted_map_const: "sorted (map (\<lambda>c. k) xs)"
  by (induction xs) auto

lemma sorted_map_le_last:
  "sorted (map f xs) \<Longrightarrow> x \<in> set xs \<Longrightarrow> f x \<le> f (last xs)"
proof (induction xs)
  case Nil
  then show ?case by simp
next
  case (Cons a xs)
  then show ?case by (cases xs) auto
qed

lemma bfs_inv_step:
  assumes inv: "bfs_inv g s lab (cur # q) came"
  defines "N \<equiv> discovered g cur came"
  defines "lab' \<equiv> \<lambda>c. if c \<in> set N then Suc (lab cur) else lab c"
  defines "came' \<equiv> \<lambda>c. if c \<in> set N then Some (Some cur) else came c"
  shows "bfs_inv g s lab' (q @ N) came'"
proof -
  have N1: "distinct N"
    unfolding N_def discovered_def using distinct_nbrs by simp
  have N2: "step_ok g cur n \<and> came n = None" if "n \<in> set N" for n
    using that unfolding N_def discovered_def step_ok_def by auto
  have N3: "n \<in> set N \<or> came n \<noteq> None" if "step_ok g cur n" for n
    using that unfolding N_def discovered_def step_ok_def by auto
  note D = bfs_invD[OF inv]
  have A1: "came s = Some None" "lab s = 0"
    using D(1,2) .
  have A2: "came p \<noteq> None \<and> p \<noteq> cur \<and> p \<notin> set q \<and> step_ok g p c \<and> lab c = Suc (lab p)"
    if "came c = Some (Some p)" for c p
    using D(3)[OF that] by simp
  have A3: "c = s" if "came c = Some None" for c
    using D(4)[OF that] .
  have A4: "came cur \<noteq> None" "\<And>c. c \<in> set q \<Longrightarrow> came c \<noteq> None" "cur \<notin> set q" "distinct q"
    using D(5)[of cur] D(5) D(6) by simp_all
  have srt: "sorted (map lab (cur # q))" and lst: "lab (last (cur # q)) \<le> Suc (lab cur)"
    using D(7) D(8) by simp_all
  have A5: "lab cur \<le> lab x \<and> lab x \<le> Suc (lab cur)" if "x \<in> set q" for x
  proof -
    have "lab x \<le> lab (last (cur # q))"
      using sorted_map_le_last[OF srt, of x] that by simp
    with lst srt that show ?thesis by auto
  qed
  have A5s: "sorted (map lab q)"
    using srt by simp
  have A6: "came n \<noteq> None \<and> lab n \<le> Suc (lab c)"
    if "came c \<noteq> None" "c \<noteq> cur" "c \<notin> set q" "step_ok g c n" for c n
    using D(9)[of c n] that by simp
  have A7: "lab c \<le> lab x"
    if "came c \<noteq> None" "c \<noteq> cur" "c \<notin> set q" "x = cur \<or> x \<in> set q" for c x
    using D(10)[of c x] that by auto
  have seen: "came c \<noteq> None \<Longrightarrow> c \<notin> set N" for c
    using N2[of c] by auto
  have keep: "c \<notin> set N \<Longrightarrow> came' c = came c \<and> lab' c = lab c" for c
    by (simp add: came'_def lab'_def)
  have new: "c \<in> set N \<Longrightarrow> came' c = Some (Some cur) \<and> lab' c = Suc (lab cur)" for c
    by (simp add: came'_def lab'_def)
  have qN: "c \<in> set q \<Longrightarrow> c \<notin> set N" for c
    using A4(2) seen by blast
  have curN: "cur \<notin> set N"
    using A4(1) seen by blast
  have B1: "came' s = Some None \<and> lab' s = 0"
    using A1 seen[of s] keep[of s] by simp
  have B2: "came' p \<noteq> None \<and> p \<notin> set (q @ N) \<and> step_ok g p c \<and> lab' c = Suc (lab' p)"
    if h: "came' c = Some (Some p)" for c p
  proof (cases "c \<in> set N")
    case True
    then have "p = cur" using h new by simp
    then show ?thesis
      using True new[OF True] keep[OF curN] A4(1,3) curN N2[OF True] by simp
  next
    case False
    then have "came c = Some (Some p)" using h keep by simp
    from A2[OF this] show ?thesis
      using keep[OF False] keep[of p] seen[of p] by simp
  qed
  have B3: "c = s" if "came' c = Some None" for c
    using that A3 keep[of c] new[of c] by (cases "c \<in> set N") auto
  have B4: "\<forall>c \<in> set (q @ N). came' c \<noteq> None"
    using A4(2) keep new qN by (metis Un_iff option.distinct(1) set_append)
  have B4d: "distinct (q @ N)"
    using A4(4) N1 qN by auto
  have labq: "map lab' q = map lab q"
    using qN keep by simp
  have labN: "map lab' N = map (\<lambda>c. Suc (lab cur)) N"
    using new by simp
  have B5: "sorted (map lab' (q @ N))"
  proof -
    have "sorted (map (\<lambda>c. Suc (lab cur)) N)"
      by (rule sorted_map_const)
    moreover have "\<forall>x \<in> set (map lab q). \<forall>y \<in> set (map (\<lambda>c. Suc (lab cur)) N). x \<le> y"
      using A5 by auto
    ultimately show ?thesis
      unfolding map_append labq labN sorted_append using A5s by blast
  qed
  have B5l: "lab' (last (q @ N)) \<le> Suc (lab' (hd (q @ N)))" if ne: "q @ N \<noteq> []"
  proof (cases "N = []")
    case True
    then have q: "q \<noteq> []" using ne by simp
    then have "last q \<in> set q" "hd q \<in> set q" by simp_all
    then show ?thesis
      using True A5[of "last q"] A5[of "hd q"] keep qN by auto
  next
    case False
    then have l: "lab' (last (q @ N)) = Suc (lab cur)"
      using new[of "last N"] by simp
    show ?thesis
    proof (cases "q = []")
      case True
      then show ?thesis using l False new[of "hd N"] by simp
    next
      case q: False
      then have "hd q \<in> set q" by simp
      then show ?thesis
        using l q A5[of "hd q"] keep qN by auto
    qed
  qed
  have B6: "came' n \<noteq> None \<and> lab' n \<le> Suc (lab' c)"
    if h: "came' c \<noteq> None" "c \<notin> set (q @ N)" "step_ok g c n" for c n
  proof -
    have cN: "c \<notin> set N" and cq: "c \<notin> set q" using h(2) by simp_all
    have cc: "came c \<noteq> None" "lab' c = lab c" using h(1) keep[OF cN] by simp_all
    show ?thesis
    proof (cases "n \<in> set N")
      case nN: True
      show ?thesis
      proof (cases "c = cur")
        case True
        then show ?thesis using new[OF nN] cc by simp
      next
        case False
        from A6[OF cc(1) False cq h(3)] N2[OF nN] show ?thesis by simp
      qed
    next
      case nN: False
      show ?thesis
      proof (cases "c = cur")
        case True
        then have n: "came n \<noteq> None" using N3[of n] h(3) nN by blast
        have "lab n \<le> Suc (lab cur)"
        proof (cases "n = cur \<or> n \<in> set q")
          case True
          then show ?thesis using A5[of n] by auto
        next
          case False
          then have "lab n \<le> lab cur" using A7[of n cur] n by simp
          then show ?thesis by simp
        qed
        then show ?thesis using n keep[OF nN] cc True by simp
      next
        case False
        from A6[OF cc(1) False cq h(3)] show ?thesis
          using keep[OF nN] cc by simp
      qed
    qed
  qed
  have B7: "lab' c \<le> lab' x"
    if h: "came' c \<noteq> None" "c \<notin> set (q @ N)" "x \<in> set (q @ N)" for c x
  proof -
    have cN: "c \<notin> set N" and cq: "c \<notin> set q" using h(2) by simp_all
    have cc: "came c \<noteq> None" "lab' c = lab c" using h(1) keep[OF cN] by simp_all
    have ccur: "lab c \<le> lab cur"
      using A7[of c cur] cc(1) cq by (cases "c = cur") auto
    show ?thesis
    proof (cases "x \<in> set N")
      case True
      then show ?thesis using new[OF True] cc ccur by simp
    next
      case False
      then have xq: "x \<in> set q" using h(3) by simp
      then have "lab c \<le> lab x"
        using A5[OF xq] A7[of c x] cc(1) cq by (cases "c = cur") auto
      then show ?thesis using keep[OF False] cc by simp
    qed
  qed
  show ?thesis
    unfolding bfs_inv_def
    using B1 B2 B3 B4 B4d B5 B5l B6 B7 by blast
qed

lemma bfs_loop_inv:
  "wf_grid g \<Longrightarrow> \<exists>lab. bfs_inv g s lab q came \<Longrightarrow>
     \<exists>came' lab' q'. bfs_loop g goal q came = Inr came' \<and> bfs_inv g s lab' q' came'
        \<and> (q' = [] \<or> hd q' = goal)"
proof (induction g goal q came rule: bfs_loop.induct)
  case (1 grid goal came)
  then show ?case by auto
next
  case (2 grid goal cur q came)
  show ?case
  proof (cases "cur = goal")
    case True
    then have "bfs_loop grid goal (cur # q) came = Inr came" by simp
    moreover have "hd (cur # q) = goal" using True by simp
    ultimately show ?thesis using "2.prems"(2) by blast
  next
    case False
    let ?N = "discovered grid cur came"
    let ?came' = "\<lambda>c. if c \<in> set ?N then Some (Some cur) else came c"
    from "2.prems"(2) obtain lab where inv: "bfs_inv grid s lab (cur # q) came" by blast
    have e: "expand grid cur dirs (q, came) = Inr (q @ ?N, ?came')"
      using expand_wf[OF "2.prems"(1) distinct_nbrs, of cur q came] by (simp add: discovered_def)
    have "\<exists>lab. bfs_inv grid s lab (q @ ?N) ?came'"
      using bfs_inv_step[OF inv] by blast
    from "2.IH"[OF False e refl "2.prems"(1) this]
    show ?thesis
      using False e by simp
  qed
qed

subsection \<open>Routes\<close>

text \<open>
  A route from \<open>s\<close> to \<open>t\<close> is a non-empty list of cells from \<open>s\<close> to \<open>t\<close> in
  which every cell after the first is a free neighbour of the one before it.
\<close>

definition walk :: "grid \<Rightarrow> cell list \<Rightarrow> bool" where
  "walk g ps = (\<forall>i. Suc i < length ps \<longrightarrow> step_ok g (ps ! i) (ps ! Suc i))"

definition route :: "grid \<Rightarrow> cell \<Rightarrow> cell \<Rightarrow> cell list \<Rightarrow> bool" where
  "route g s t ps = (ps \<noteq> [] \<and> hd ps = s \<and> last ps = t \<and> walk g ps)"

lemma walk_snoc:
  assumes "walk g ps" and "ps \<noteq> []" and "step_ok g (last ps) c"
  shows "walk g (ps @ [c])"
  unfolding walk_def
proof (intro allI impI)
  fix i
  assume i: "Suc i < length (ps @ [c])"
  show "step_ok g ((ps @ [c]) ! i) ((ps @ [c]) ! Suc i)"
  proof (cases "Suc i < length ps")
    case True
    then show ?thesis
      using assms(1) by (simp add: walk_def nth_append)
  next
    case False
    then have len: "length ps = Suc i" using i by simp
    then have "(ps @ [c]) ! i = last ps" "(ps @ [c]) ! Suc i = c"
      using assms(2) by (simp_all add: nth_append last_conv_nth)
    then show ?thesis using assms(3) by simp
  qed
qed

lemma follow_chain:
  assumes inv: "bfs_inv g s lab q came"
  shows "came c \<noteq> None \<Longrightarrow>
         \<exists>ps. follow came (Some c) acc = Some (Inr (acc @ rev ps))
              \<and> route g s c ps \<and> length ps = Suc (lab c)"
proof (induction "lab c" arbitrary: c acc)
  case 0
  note D = bfs_invD[OF inv]
  have "came c = Some None"
  proof (cases "came c")
    case None
    with 0 show ?thesis by simp
  next
    case (Some v)
    show ?thesis
    proof (cases v)
      case None
      with Some show ?thesis by simp
    next
      case (Some p)
      with \<open>came c = Some v\<close> D(3)[of c p] 0 show ?thesis by simp
    qed
  qed
  then have cs: "c = s" and f: "follow came (Some c) acc = Some (Inr (acc @ rev [c]))"
    using D(4) by (simp_all add: follow.simps)
  have "route g s c [c]"
    using cs by (simp add: route_def walk_def)
  with f 0 show ?case by (metis One_nat_def length_Cons list.size(3))
next
  case (Suc k)
  note D = bfs_invD[OF inv]
  obtain p where p: "came c = Some (Some p)"
  proof (cases "came c")
    case None
    with Suc show ?thesis by simp
  next
    case (Some v)
    show ?thesis
    proof (cases v)
      case None
      with Some D(4)[of c] D(2) Suc(2) show ?thesis by simp
    next
      case (Some p)
      with \<open>came c = Some v\<close> that show ?thesis by simp
    qed
  qed
  from D(3)[OF p] have pp: "came p \<noteq> None" "step_ok g p c" "lab c = Suc (lab p)"
    by simp_all
  then have "k = lab p" using Suc(2) by simp
  from Suc(1)[OF this pp(1), of "acc @ [c]"]
  obtain ps where ps: "follow came (Some p) (acc @ [c]) = Some (Inr ((acc @ [c]) @ rev ps))"
    "route g s p ps" "length ps = Suc (lab p)"
    by blast
  have "follow came (Some c) acc = Some (Inr (acc @ rev (ps @ [c])))"
    using p ps(1) by (simp add: follow.simps)
  moreover have "route g s c (ps @ [c])"
    using ps(2) pp(2) walk_snoc[of g ps c] by (auto simp: route_def)
  moreover have "length (ps @ [c]) = Suc (lab c)"
    using ps(3) pp(3) by simp
  ultimately show ?case by blast
qed

lemma bfs_reach:
  assumes inv: "bfs_inv g s lab q came" and ex: "q = [] \<or> hd q = goal"
    and r: "route g s goal ps"
  shows "came goal \<noteq> None \<and> Suc (lab goal) \<le> length ps"
proof -
  note D = bfs_invD[OF inv]
  have ne: "ps \<noteq> []" and h: "hd ps = s" and l: "last ps = goal" and w: "walk g ps"
    using r by (simp_all add: route_def)
  have P: "i < length ps \<Longrightarrow>
        (q \<noteq> [] \<and> lab (hd q) \<le> i) \<or> (came (ps ! i) \<noteq> None \<and> lab (ps ! i) \<le> i)" for i
  proof (induction i)
    case 0
    have "ps ! 0 = s" using ne h by (simp add: hd_conv_nth)
    then show ?case using D(1,2) by simp
  next
    case (Suc i)
    then have "(q \<noteq> [] \<and> lab (hd q) \<le> i) \<or> (came (ps ! i) \<noteq> None \<and> lab (ps ! i) \<le> i)"
      by simp
    then show ?case
    proof
      assume "q \<noteq> [] \<and> lab (hd q) \<le> i"
      then show ?thesis by simp
    next
      assume c: "came (ps ! i) \<noteq> None \<and> lab (ps ! i) \<le> i"
      have st: "step_ok g (ps ! i) (ps ! Suc i)"
        using w Suc.prems by (simp add: walk_def)
      show ?thesis
      proof (cases "ps ! i \<in> set q")
        case True
        then have "q \<noteq> []" by auto
        moreover have "lab (hd q) \<le> lab (ps ! i)"
          using D(7) True \<open>q \<noteq> []\<close> by (cases q) auto
        ultimately show ?thesis using c by simp
      next
        case False
        from D(9)[OF _ False st] c show ?thesis by auto
      qed
    qed
  qed
  have "length ps - 1 < length ps" using ne by simp
  from P[OF this] have
    "(q \<noteq> [] \<and> lab (hd q) \<le> length ps - 1) \<or> (came goal \<noteq> None \<and> lab goal \<le> length ps - 1)"
    using l ne by (simp add: last_conv_nth)
  then have "came goal \<noteq> None \<and> lab goal \<le> length ps - 1"
  proof
    assume a: "q \<noteq> [] \<and> lab (hd q) \<le> length ps - 1"
    then have "hd q = goal" using ex by simp
    moreover have "hd q \<in> set q" using a by simp
    ultimately show ?thesis using a D(5) by auto
  qed simp
  then show ?thesis using ne by (cases ps) auto
qed

lemma bfs_path_any_start:
  assumes wf: "wf_grid g" and ne: "start \<noteq> goal"
  shows "\<exists>r. bfs_path g start goal = Some (Inr r)
           \<and> (case r of
                None \<Rightarrow> \<forall>ps. \<not> route g start goal ps
              | Some p \<Rightarrow> route g start goal p
                           \<and> (\<forall>ps. route g start goal ps \<longrightarrow> length p \<le> length ps))"
proof -
  have "\<exists>lab. bfs_inv g start lab [start] [start \<mapsto> None]"
    using bfs_inv_init by blast
  from bfs_loop_inv[OF wf this, of goal]
  obtain came lab q where res: "bfs_loop g goal [start] [start \<mapsto> None] = Inr came"
    and inv: "bfs_inv g start lab q came" and ex: "q = [] \<or> hd q = goal"
    by blast
  show ?thesis
  proof (cases "came goal = None")
    case True
    then have "bfs_path g start goal = Some (Inr None)"
      using ne res by (simp add: bfs_path_def)
    moreover have "\<not> route g start goal ps" for ps
      using bfs_reach[OF inv ex, of ps] True by blast
    ultimately show ?thesis by simp
  next
    case False
    from follow_chain[OF inv False, of "[]"]
    obtain p where p: "follow came (Some goal) [] = Some (Inr (rev p))"
      "route g start goal p" "length p = Suc (lab goal)"
      by auto
    have "bfs_path g start goal = Some (Inr (Some p))"
      using ne res False p(1) by (simp add: bfs_path_def)
    moreover have "length p \<le> length ps" if "route g start goal ps" for ps
      using bfs_reach[OF inv ex that] p(3) by simp
    ultimately show ?thesis using p(2) by simp
  qed
qed

subsection \<open>Shortest paths\<close>

text \<open>
  A path as the specification describes it: consecutive cells are 4-adjacent and every
  cell of the path is free.
\<close>

definition adjacent :: "cell \<Rightarrow> cell \<Rightarrow> bool" where
  "adjacent a b = (\<bar>fst a - fst b\<bar> + \<bar>snd a - snd b\<bar> = 1)"

definition valid_path :: "grid \<Rightarrow> cell \<Rightarrow> cell \<Rightarrow> cell list \<Rightarrow> bool" where
  "valid_path g start goal p =
     (p \<noteq> [] \<and> hd p = start \<and> last p = goal
      \<and> (\<forall>c \<in> set p. is_free g c)
      \<and> (\<forall>i. Suc i < length p \<longrightarrow> adjacent (p ! i) (p ! Suc i)))"

lemma adjacent_nbr: "adjacent a b = (b \<in> set (map (nbr a) dirs))"
proof -
  obtain ax ay bx by' where ab: "a = (ax, ay)" "b = (bx, by')"
    by (cases a; cases b) 
  show ?thesis
    unfolding ab adjacent_def dirs_def nbr_def by auto
qed

lemma valid_path_route:
  assumes "is_free g start"
  shows "valid_path g start goal p = route g start goal p"
proof
  assume v: "valid_path g start goal p"
  have "step_ok g (p ! i) (p ! Suc i)" if "Suc i < length p" for i
  proof -
    have "p ! Suc i \<in> set p" using that by simp
    then show ?thesis
      using v that unfolding valid_path_def step_ok_def adjacent_nbr by blast
  qed
  then show "route g start goal p"
    using v by (simp add: route_def walk_def valid_path_def)
next
  assume r: "route g start goal p"
  then have ne: "p \<noteq> []" and h: "hd p = start" and w: "walk g p"
    by (simp_all add: route_def)
  have "is_free g c" if "c \<in> set p" for c
  proof -
    from that obtain j where j: "j < length p" "p ! j = c"
      by (auto simp: in_set_conv_nth)
    show ?thesis
    proof (cases j)
      case 0
      then show ?thesis using j ne h assms by (simp add: hd_conv_nth)
    next
      case (Suc i)
      have "Suc i < length p" using Suc j by simp
      then have "step_ok g (p ! i) (p ! Suc i)" using w unfolding walk_def by blast
      then show ?thesis using Suc j by (simp add: step_ok_def)
    qed
  qed
  moreover have "adjacent (p ! i) (p ! Suc i)" if "Suc i < length p" for i
    using w that unfolding walk_def step_ok_def adjacent_nbr by blast
  ultimately show "valid_path g start goal p"
    using r by (simp add: valid_path_def route_def)
qed

text \<open>
  C7. On a grid of the fixed size, for a start and a goal that are both inside the grid
  and free, \<^verbatim>\<open>bfs_path\<close> returns without raising; it returns either a path from
  start to goal whose consecutive cells are 4-adjacent and whose cells are all free,
  no longer than any other such path, or \<^verbatim>\<open>None\<close> when no such path exists; and
  when start equals goal it returns exactly \<open>[start]\<close>.
\<close>

theorem bfs_path_shortest:
  assumes "wf_grid g" and "is_free g start" and "is_free g goal"
  shows "(start = goal \<longrightarrow> bfs_path g start goal = Some (Inr (Some [start])))
       \<and> (\<exists>r. bfs_path g start goal = Some (Inr r)
             \<and> (case r of
                  None \<Rightarrow> \<not> (\<exists>p. valid_path g start goal p)
                | Some p \<Rightarrow> valid_path g start goal p
                             \<and> (\<forall>p'. valid_path g start goal p' \<longrightarrow> length p \<le> length p')))"
proof (cases "start = goal")
  case True
  have eq: "bfs_path g start goal = Some (Inr (Some [start]))"
    using True by (simp add: bfs_path_def)
  have "valid_path g start goal [start]"
    using True assms(2) by (simp add: valid_path_def)
  moreover have "length [start] \<le> length p'" if "valid_path g start goal p'" for p'
    using that by (cases p') (simp_all add: valid_path_def)
  ultimately have "valid_path g start goal [start]
      \<and> (\<forall>p'. valid_path g start goal p' \<longrightarrow> length [start] \<le> length p')"
    by blast
  then show ?thesis
    unfolding eq by simp
next
  case False
  from bfs_path_any_start[OF assms(1) False]
  show ?thesis
    unfolding valid_path_route[OF assms(2)] using False by (auto split: option.splits)
qed

lemma blocked_goal_no_path:
  assumes "wf_grid g" and "start \<noteq> goal" and "\<not> is_free g goal"
  shows "bfs_path g start goal = Some (Inr None)"
proof -
  from bfs_path_any_start[OF assms(1,2)]
  obtain r where r: "bfs_path g start goal = Some (Inr r)"
    and c: "case r of
                None \<Rightarrow> \<forall>ps. \<not> route g start goal ps
              | Some p \<Rightarrow> route g start goal p
                           \<and> (\<forall>ps. route g start goal ps \<longrightarrow> length p \<le> length ps)"
    by blast
  have "r = None"
  proof (cases r)
    case None
    then show ?thesis .
  next
    case (Some p)
    with c have rt: "route g start goal p" by simp
    then have ne: "p \<noteq> []" and h: "hd p = start" and l: "last p = goal" and w: "walk g p"
      by (simp_all add: route_def)
    have "length p \<noteq> 1"
    proof
      assume "length p = 1"
      then obtain x where "p = [x]" by (cases p) auto
      with h l assms(2) show False by simp
    qed
    then obtain k where k: "length p = Suc (Suc k)"
      using ne by (cases p; cases "tl p") auto
    then have "step_ok g (p ! k) (p ! Suc k)"
      using w by (simp add: walk_def)
    moreover have "p ! Suc k = goal"
      using l ne k by (simp add: last_conv_nth)
    ultimately have "is_free g goal" by (simp add: step_ok_def)
    with assms(3) show ?thesis by simp
  qed
  with r show ?thesis by simp
qed


text \<open>
  C3, as the code has it. On a grid of the fixed size \<^verbatim>\<open>bfs_path\<close> returns without
  raising for every start and goal, inside the grid or not, free or not. When the goal
  differs from the start and is outside the grid or not free, it returns \<^verbatim>\<open>None\<close>.
  The start cell is never checked: when the start equals the goal it returns
  \<open>[start]\<close>, whatever that cell is.
\<close>

theorem bfs_path_invalid_goal:
  assumes "wf_grid g"
  shows "(\<exists>r. bfs_path g start goal = Some (Inr r))
       \<and> (start \<noteq> goal \<and> \<not> is_free g goal \<longrightarrow> bfs_path g start goal = Some (Inr None))
       \<and> (start = goal \<longrightarrow> bfs_path g start goal = Some (Inr (Some [start])))"
proof -
  have same: "bfs_path g start goal = Some (Inr (Some [start]))" if "start = goal"
    using that by (simp add: bfs_path_def)
  have "\<exists>r. bfs_path g start goal = Some (Inr r)"
  proof (cases "start = goal")
    case True
    then show ?thesis using same by simp
  next
    case False
    from bfs_path_any_start[OF assms False] show ?thesis by blast
  qed
  then show ?thesis
    using same blocked_goal_no_path[OF assms] by blast
qed

text \<open>A grid of walls with two free cells, \<open>(1, 1)\<close> and \<open>(2, 1)\<close>.\<close>

definition two_free :: grid where
  "two_free = put (put initial_grid (1, 1) 1) (2, 1) 1"

lemma wf_two_free: "wf_grid two_free"
  unfolding two_free_def
  by (intro wf_put wf_initial_grid) (simp_all add: in_grid_def GRID_COLS_def GRID_ROWS_def)

lemma two_free_cells:
  "is_free two_free (1, 1)" "is_free two_free (2, 1)" "\<not> is_free two_free (0, 1)"
  "\<not> is_free two_free (3, 1)"
  by (simp_all add: is_free_def two_free_def put_def initial_grid_def in_grid_def grid_get_def
      py_get_def py_position_def const_defs)

lemma bfs_two_free: "bfs_path two_free (1, 1) (2, 1) = Some (Inr (Some [(1, 1), (2, 1)]))"
  by (simp add: bfs_path_def two_free_def put_def initial_grid_def dirs_def grid_get_def py_get_def
      py_position_def follow.simps const_defs visit.simps)

theorem bfs_path_shortest_witness:
  "bfs_path two_free (1, 1) (2, 1) = Some (Inr (Some [(1, 1), (2, 1)]))
   \<and> valid_path two_free (1, 1) (2, 1) [(1, 1), (2, 1)]
   \<and> bfs_path two_free (1, 1) (1, 1) = Some (Inr (Some [(1, 1)]))"
  using bfs_path_shortest[OF wf_two_free two_free_cells(1) two_free_cells(2)]
    bfs_path_shortest[OF wf_two_free two_free_cells(1) two_free_cells(1)] bfs_two_free
  by simp

theorem bfs_path_invalid_goal_witness:
  "bfs_path two_free (1, 1) (3, 1) = Some (Inr None)
   \<and> bfs_path two_free (1, 1) (5, -4) = Some (Inr None)
   \<and> bfs_path two_free (7, 7) (7, 7) = Some (Inr (Some [(7, 7)]))"
proof -
  have "\<not> is_free two_free (5, -4)"
    by (simp add: is_free_def in_grid_def)
  then show ?thesis
    using bfs_path_invalid_goal[OF wf_two_free, of "(1, 1)" "(3, 1)"] two_free_cells(4)
      bfs_path_invalid_goal[OF wf_two_free, of "(1, 1)" "(5, -4)"]
      bfs_path_invalid_goal[OF wf_two_free, of "(7, 7)" "(7, 7)"]
    by simp
qed

text \<open>
  C3 as stated fails: the start cell is never validated. With the start equal to the
  goal the result is \<open>[start]\<close> even on a wall cell or outside the grid, and from a
  wall cell the search still finds a path through free cells.
\<close>

theorem bfs_path_unchecked_start:
  "wf_grid two_free \<and> \<not> is_free two_free (0, 1)
   \<and> bfs_path two_free (0, 1) (0, 1) = Some (Inr (Some [(0, 1)]))
   \<and> bfs_path two_free (0, 1) (2, 1) = Some (Inr (Some [(0, 1), (1, 1), (2, 1)]))
   \<and> \<not> in_grid (-3, 40)
   \<and> bfs_path two_free (-3, 40) (-3, 40) = Some (Inr (Some [(-3, 40)]))"
proof -
  have "bfs_path two_free (0, 1) (2, 1) = Some (Inr (Some [(0, 1), (1, 1), (2, 1)]))"
    by (simp add: bfs_path_def two_free_def put_def initial_grid_def dirs_def grid_get_def py_get_def
      py_position_def follow.simps const_defs visit.simps)
  then show ?thesis
    using wf_two_free two_free_cells(3) by (simp add: bfs_path_def in_grid_def)
qed

section \<open>The game session\<close>

text \<open>
  The class \<^verbatim>\<open>MazeRunner\<close>: the state string is a datatype, and the record holds the
  attributes that \<^verbatim>\<open>update\<close> and the click handling read or write. The player's
  position is a pair of ints: it starts as ints and \<^verbatim>\<open>main_loop\<close> only ever moves it
  by \<open>PLAYER_SPEED\<close>. The enemy's position is a pair of numbers, because its velocity
  is a float; so is its cell. Attributes that only the drawing code reads are left out.
\<close>

datatype game_state = Menu | Playing | GameOver | Win

record session =
  level :: int
  lives :: int
  state :: game_state
  grid :: grid
  player_pos :: "int \<times> int"
  enemy_pos :: "num \<times> num"
  player_cell :: cell
  enemy_cell :: "num \<times> num"

definition reset_positions :: "session \<Rightarrow> session" where
  "reset_positions gm =
     (let (px, py) = grid_to_pixel 1 1;
          (ex, ey) = grid_to_pixel (GRID_COLS - 2) (GRID_ROWS - 2)
      in gm\<lparr>player_pos := (px - PLAYER_SIZE div 2, py - PLAYER_SIZE div 2),
            enemy_pos := (PInt (ex - ENEMY_SIZE div 2), PInt (ey - ENEMY_SIZE div 2)),
            player_cell := (1, 1),
            enemy_cell := (PInt (GRID_COLS - 2), PInt (GRID_ROWS - 2))\<rparr>)"

text \<open>\<^verbatim>\<open>pixel_to_grid\<close> on ints, where every operation is an int operation.\<close>

definition pixel_to_grid_int :: "int \<Rightarrow> int \<Rightarrow> cell" where
  "pixel_to_grid_int px py =
     (max 0 (min (GRID_COLS - 1) ((px - OFFSET_X) div TILE)),
      max 0 (min (GRID_ROWS - 1) ((py - OFFSET_Y) div TILE)))"

definition update_player_cell :: "session \<Rightarrow> session" where
  "update_player_cell gm =
     gm\<lparr>player_cell := pixel_to_grid_int (fst (player_pos gm) + PLAYER_SIZE div 2)
                                         (snd (player_pos gm) + PLAYER_SIZE div 2)\<rparr>"

definition update_enemy_cell :: "(real \<Rightarrow> real) \<Rightarrow> session \<Rightarrow> session" where
  "update_enemy_cell rd gm =
     gm\<lparr>enemy_cell := pixel_to_grid rd (num_add rd (fst (enemy_pos gm)) (PInt (ENEMY_SIZE div 2)))
                                      (num_add rd (snd (enemy_pos gm)) (PInt (ENEMY_SIZE div 2)))\<rparr>"

text \<open>
  \<^verbatim>\<open>rects_collide\<close> builds two \<^verbatim>\<open>pygame.Rect\<close> values and calls
  \<^verbatim>\<open>colliderect\<close>. A \<^verbatim>\<open>Rect\<close> holds ints, a float coordinate is truncated towards
  zero; two rectangles of positive size collide when they overlap, and rectangles that
  only touch do not.
\<close>

definition py_trunc :: "num \<Rightarrow> int" where
  "py_trunc n = (case n of PInt i \<Rightarrow> i | PFloat r \<Rightarrow> if 0 \<le> r then \<lfloor>r\<rfloor> else \<lceil>r\<rceil>)"

definition rects_collide :: "int \<times> int \<Rightarrow> int \<Rightarrow> num \<times> num \<Rightarrow> int \<Rightarrow> bool" where
  "rects_collide pos1 size1 pos2 size2 =
     (let x1 = fst pos1; y1 = snd pos1; x2 = py_trunc (fst pos2); y2 = py_trunc (snd pos2)
      in x1 < x2 + size2 \<and> y1 < y2 + size2 \<and> x2 < x1 + size1 \<and> y2 < y1 + size1)"

text \<open>
  The player's move in \<^verbatim>\<open>update\<close>: both tests are made before either coordinate is
  assigned.
\<close>

definition move_player ::
    "(real \<Rightarrow> real) \<Rightarrow> grid \<Rightarrow> int \<times> int \<Rightarrow> int \<times> int \<Rightarrow> py_error + int \<times> int" where
  "move_player rd g pos d =
     (let new_x = fst pos + fst d; new_y = snd pos + snd d in
      case can_move_to rd g (PInt new_x) (PInt (snd pos)) of
        Inl e \<Rightarrow> Inl e
      | Inr can_move_x \<Rightarrow>
          (case can_move_to rd g (PInt (fst pos)) (PInt new_y) of
             Inl e \<Rightarrow> Inl e
           | Inr can_move_y \<Rightarrow>
               Inr (if can_move_x then new_x else fst pos,
                    if can_move_y then new_y else snd pos)))"

text \<open>
  The arithmetic of the enemy's pursuit. In \<open>num_add\<close> and \<open>num_sub\<close> above an int
  that meets a float is one of the program's small constants. Here both operands vary,
  and Python converts an int that meets a float to a float first: the conversion raises
  \<open>OverflowError\<close> when the int rounds beyond the largest double, that is when its
  magnitude is at least \<open>2^1024 - 2^970\<close>. The true division of two ints raises it when
  the quotient is that large; \<^verbatim>\<open>x ** 2\<close> on a float raises it when the square is
  (float addition and multiplication give \<^verbatim>\<open>inf\<close> instead, a value the model does
  not have: a float is a real number here).
\<close>

definition out_of_float_range :: "real \<Rightarrow> bool" where
  "out_of_float_range r = (2 ^ 1024 - 2 ^ 970 \<le> \<bar>r\<bar>)"

definition to_float :: "num \<Rightarrow> py_error + real" where
  "to_float n =
     (case n of
        PFloat r \<Rightarrow> Inr r
      | PInt i \<Rightarrow> if out_of_float_range (of_int i) then Inl OverflowError else Inr (of_int i))"

definition float_arith ::
    "(real \<Rightarrow> real) \<Rightarrow> (real \<Rightarrow> real \<Rightarrow> real) \<Rightarrow> num \<Rightarrow> num \<Rightarrow> py_error + num" where
  "float_arith rd f a b =
     (case to_float a of
        Inl e \<Rightarrow> Inl e
      | Inr x \<Rightarrow> (case to_float b of Inl e \<Rightarrow> Inl e | Inr y \<Rightarrow> Inr (PFloat (rd (f x y)))))"

text \<open>\<^verbatim>\<open>a + b\<close>, \<^verbatim>\<open>a - b\<close> and \<^verbatim>\<open>a * b\<close>: int arithmetic on two ints, float arithmetic otherwise.\<close>

definition py_add :: "(real \<Rightarrow> real) \<Rightarrow> num \<Rightarrow> num \<Rightarrow> py_error + num" where
  "py_add rd a b =
     (case (a, b) of
        (PInt x, PInt y) \<Rightarrow> Inr (PInt (x + y))
      | _ \<Rightarrow> float_arith rd (\<lambda>x y. x + y) a b)"

definition py_sub :: "(real \<Rightarrow> real) \<Rightarrow> num \<Rightarrow> num \<Rightarrow> py_error + num" where
  "py_sub rd a b =
     (case (a, b) of
        (PInt x, PInt y) \<Rightarrow> Inr (PInt (x - y))
      | _ \<Rightarrow> float_arith rd (\<lambda>x y. x - y) a b)"

definition py_mul :: "(real \<Rightarrow> real) \<Rightarrow> num \<Rightarrow> num \<Rightarrow> py_error + num" where
  "py_mul rd a b =
     (case (a, b) of
        (PInt x, PInt y) \<Rightarrow> Inr (PInt (x * y))
      | _ \<Rightarrow> float_arith rd (\<lambda>x y. x * y) a b)"

text \<open>
  \<^verbatim>\<open>a / b\<close>: always a float. The divisor is \<^verbatim>\<open>dist\<close>, which is at least 1, at both
  calls.
\<close>

definition py_truediv :: "(real \<Rightarrow> real) \<Rightarrow> num \<Rightarrow> num \<Rightarrow> py_error + num" where
  "py_truediv rd a b =
     (case (a, b) of
        (PInt x, PInt y) \<Rightarrow>
          if out_of_float_range (of_int x / of_int y) then Inl OverflowError
          else Inr (PFloat (rd (of_int x / of_int y)))
      | _ \<Rightarrow> float_arith rd (\<lambda>x y. x / y) a b)"

text \<open>\<^verbatim>\<open>a ** 2\<close>: an int for an int, a float for a float.\<close>

definition py_square :: "(real \<Rightarrow> real) \<Rightarrow> num \<Rightarrow> py_error + num" where
  "py_square rd a =
     (case a of
        PInt i \<Rightarrow> Inr (PInt (i * i))
      | PFloat r \<Rightarrow> if out_of_float_range (r * r) then Inl OverflowError
                    else Inr (PFloat (rd (r * r))))"

text \<open>
  \<^verbatim>\<open>a ** 0.5\<close>: always a float, an int is converted first. The argument is the sum of
  two squares.
\<close>

definition py_root :: "(real \<Rightarrow> real) \<Rightarrow> num \<Rightarrow> py_error + num" where
  "py_root rd a = (case to_float a of Inl e \<Rightarrow> Inl e | Inr x \<Rightarrow> Inr (PFloat (rd (sqrt x))))"

text \<open>
  The enemy's velocity: the vector to the centre of the next cell, scaled to
  \<open>ENEMY_SPEED\<close>. The true divisions make it a pair of floats, whatever the position
  is. \<open>None\<close> when the vector is zero (no move is attempted). \<open>dst\<close> is the
  source's \<^verbatim>\<open>dist\<close>.
\<close>

definition enemy_direction ::
    "(real \<Rightarrow> real) \<Rightarrow> num \<times> num \<Rightarrow> cell \<Rightarrow> py_error + num \<times> num" where
  "enemy_direction rd pos next_cell =
     (let (nx_px, ny_px) = grid_to_pixel (fst next_cell) (snd next_cell);
          ex_c = num_add rd (fst pos) (PInt (ENEMY_SIZE div 2));
          ey_c = num_add rd (snd pos) (PInt (ENEMY_SIZE div 2))
      in case py_sub rd (PInt nx_px) ex_c of
           Inl e \<Rightarrow> Inl e
         | Inr dir_x \<Rightarrow>
             (case py_sub rd (PInt ny_px) ey_c of
                Inl e \<Rightarrow> Inl e
              | Inr dir_y \<Rightarrow> Inr (dir_x, dir_y)))"

definition enemy_distance :: "(real \<Rightarrow> real) \<Rightarrow> num \<Rightarrow> num \<Rightarrow> py_error + num" where
  "enemy_distance rd dir_x dir_y =
     (case py_square rd dir_x of
        Inl e \<Rightarrow> Inl e
      | Inr sx \<Rightarrow>
          (case py_square rd dir_y of
             Inl e \<Rightarrow> Inl e
           | Inr sy \<Rightarrow>
               (case py_add rd sx sy of
                  Inl e \<Rightarrow> Inl e
                | Inr sq \<Rightarrow>
                    (case py_root rd sq of
                       Inl e \<Rightarrow> Inl e
                     | Inr d \<Rightarrow> Inr (py_max (PInt 1) d)))))"

definition enemy_speed_along :: "(real \<Rightarrow> real) \<Rightarrow> num \<Rightarrow> num \<Rightarrow> py_error + num" where
  "enemy_speed_along rd dir dst =
     (case py_mul rd (PInt ENEMY_SPEED) dir of
        Inl e \<Rightarrow> Inl e
      | Inr m \<Rightarrow> py_truediv rd m dst)"

definition enemy_velocity ::
    "(real \<Rightarrow> real) \<Rightarrow> num \<times> num \<Rightarrow> cell \<Rightarrow> py_error + (num \<times> num) option" where
  "enemy_velocity rd pos next_cell =
     (case enemy_direction rd pos next_cell of
        Inl e \<Rightarrow> Inl e
      | Inr (dir_x, dir_y) \<Rightarrow>
          if to_real dir_x \<noteq> 0 \<or> to_real dir_y \<noteq> 0 then
            (case enemy_distance rd dir_x dir_y of
               Inl e \<Rightarrow> Inl e
             | Inr dst \<Rightarrow>
                 (case enemy_speed_along rd dir_x dst of
                    Inl e \<Rightarrow> Inl e
                  | Inr vx \<Rightarrow>
                      (case enemy_speed_along rd dir_y dst of
                         Inl e \<Rightarrow> Inl e
                       | Inr vy \<Rightarrow> Inr (Some (vx, vy)))))
          else Inr None)"

text \<open>
  The enemy's move in \<^verbatim>\<open>update\<close>: both proposed coordinates are computed first;
  the X coordinate is assigned before the Y test, which reads \<^verbatim>\<open>self.enemy_pos[0]\<close>
  again.
\<close>

definition move_enemy ::
    "(real \<Rightarrow> real) \<Rightarrow> grid \<Rightarrow> num \<times> num \<Rightarrow> num \<times> num \<Rightarrow> py_error + num \<times> num" where
  "move_enemy rd g pos v =
     (case py_add rd (fst pos) (fst v) of
        Inl e \<Rightarrow> Inl e
      | Inr new_ex \<Rightarrow>
          (case py_add rd (snd pos) (snd v) of
             Inl e \<Rightarrow> Inl e
           | Inr new_ey \<Rightarrow>
               (case can_move_to rd g new_ex (snd pos) of
                  Inl e \<Rightarrow> Inl e
                | Inr ok_x \<Rightarrow>
                    (let ex = (if ok_x then new_ex else fst pos) in
                     case can_move_to rd g ex new_ey of
                       Inl e \<Rightarrow> Inl e
                     | Inr ok_y \<Rightarrow> Inr (ex, if ok_y then new_ey else snd pos)))))"

text \<open>
  \<^verbatim>\<open>bfs_path\<close> is called with the enemy's cell as the start. When that cell is a
  pair of ints this is \<open>bfs_path\<close> above, and \<^verbatim>\<open>update\<close> reads \<^verbatim>\<open>path[1]\<close> when
  the path has at least two cells. When a coordinate of the start is a float, the call
  returns \<open>[start]\<close> if the start equals the goal (tuples compare by value); otherwise
  the first neighbour that passes the bounds test is used as a list index, which raises
  (\<open>TypeError\<close> for a float index), and if no neighbour is inside the bounds the queue
  runs empty and the call returns \<^verbatim>\<open>None\<close>.
\<close>

definition float_start_probe ::
    "(real \<Rightarrow> real) \<Rightarrow> grid \<Rightarrow> num \<times> num \<Rightarrow> py_error option" where
  "float_start_probe rd g c =
     (case find (\<lambda>d. num_le (PInt 0) (num_add rd (fst c) (PInt (fst d)))
                     \<and> num_lt (num_add rd (fst c) (PInt (fst d))) (PInt GRID_COLS)
                     \<and> num_le (PInt 0) (num_add rd (snd c) (PInt (snd d)))
                     \<and> num_lt (num_add rd (snd c) (PInt (snd d))) (PInt GRID_ROWS)) dirs of
        None \<Rightarrow> None
      | Some d \<Rightarrow>
          (case py_index g (num_add rd (snd c) (PInt (snd d))) of
             Inl e \<Rightarrow> Some e
           | Inr row \<Rightarrow> Some TypeError))"

definition next_cell_of_path ::
    "(real \<Rightarrow> real) \<Rightarrow> grid \<Rightarrow> num \<times> num \<Rightarrow> cell \<Rightarrow> (py_error + cell option) option" where
  "next_cell_of_path rd g start goal =
     (case start of
        (PInt x, PInt y) \<Rightarrow>
          (case bfs_path g (x, y) goal of
             None \<Rightarrow> None
           | Some (Inl e) \<Rightarrow> Some (Inl e)
           | Some (Inr None) \<Rightarrow> Some (Inr None)
           | Some (Inr (Some path)) \<Rightarrow>
               Some (Inr (if length path \<ge> 2 then Some (path ! 1) else None)))
      | _ \<Rightarrow>
          if to_real (fst start) = of_int (fst goal) \<and> to_real (snd start) = of_int (snd goal)
          then Some (Inr None)
          else (case float_start_probe rd g start of
                  None \<Rightarrow> Some (Inr None)
                | Some e \<Rightarrow> Some (Inl e)))"

text \<open>
  \<^verbatim>\<open>MazeRunner.update\<close>, in the order of the source: the player's move, the two
  cells, the enemy's pursuit, the catch test, the exit test. The catch test and the exit
  test are two separate \<^verbatim>\<open>if\<close> statements.
\<close>

definition player_phase ::
    "(real \<Rightarrow> real) \<Rightarrow> (int \<times> int) option \<Rightarrow> session \<Rightarrow> py_error + session" where
  "player_phase rd input_dir gm =
     (case input_dir of
        None \<Rightarrow> Inr gm
      | Some d \<Rightarrow>
          (case move_player rd (grid gm) (player_pos gm) d of
             Inl e \<Rightarrow> Inl e
           | Inr pos \<Rightarrow> Inr (gm\<lparr>player_pos := pos\<rparr>)))"

definition enemy_phase :: "(real \<Rightarrow> real) \<Rightarrow> session \<Rightarrow> (py_error + session) option" where
  "enemy_phase rd gm =
     (case next_cell_of_path rd (grid gm) (enemy_cell gm) (player_cell gm) of
        None \<Rightarrow> None
      | Some (Inl e) \<Rightarrow> Some (Inl e)
      | Some (Inr None) \<Rightarrow> Some (Inr gm)
      | Some (Inr (Some next_cell)) \<Rightarrow>
          (case enemy_velocity rd (enemy_pos gm) next_cell of
             Inl e \<Rightarrow> Some (Inl e)
           | Inr None \<Rightarrow> Some (Inr gm)
           | Inr (Some v) \<Rightarrow>
               (case move_enemy rd (grid gm) (enemy_pos gm) v of
                  Inl e \<Rightarrow> Some (Inl e)
                | Inr pos \<Rightarrow> Some (Inr (gm\<lparr>enemy_pos := pos\<rparr>)))))"

definition catch_phase :: "session \<Rightarrow> session" where
  "catch_phase gm =
     (if rects_collide (player_pos gm) PLAYER_SIZE (enemy_pos gm) ENEMY_SIZE then
        (let gm1 = gm\<lparr>lives := lives gm - 1\<rparr> in
         if lives gm1 \<le> 0 then gm1\<lparr>state := GameOver\<rparr> else reset_positions gm1)
      else gm)"

definition exit_phase :: "rng \<Rightarrow> session \<Rightarrow> py_error + session \<times> rng" where
  "exit_phase s gm =
     (if player_cell gm = (GRID_COLS - 2, GRID_ROWS - 2) then
        (if level gm < MAX_LEVEL then
           (case generate_maze s (level gm + 1) of
              Inl e \<Rightarrow> Inl e
            | Inr (m, s') \<Rightarrow> Inr (reset_positions (gm\<lparr>level := level gm + 1, grid := m\<rparr>), s'))
         else Inr (gm\<lparr>state := Win\<rparr>, s))
      else Inr (gm, s))"

definition update ::
    "(real \<Rightarrow> real) \<Rightarrow> rng \<Rightarrow> session \<Rightarrow> real \<Rightarrow> (int \<times> int) option
       \<Rightarrow> (py_error + session \<times> rng) option" where
  "update rd s gm dt input_dir =
     (if state gm \<noteq> Playing then Some (Inr (gm, s))
      else (case player_phase rd input_dir gm of
              Inl e \<Rightarrow> Some (Inl e)
            | Inr gm1 \<Rightarrow>
                (case enemy_phase rd (update_enemy_cell rd (update_player_cell gm1)) of
                   None \<Rightarrow> None
                 | Some (Inl e) \<Rightarrow> Some (Inl e)
                 | Some (Inr gm2) \<Rightarrow> Some (exit_phase s (catch_phase gm2)))))"

lemma pixel_to_grid_ints:
  "pixel_to_grid rd (PInt px) (PInt py)
     = (PInt (fst (pixel_to_grid_int px py)), PInt (snd (pixel_to_grid_int px py)))"
  by (simp add: pixel_to_grid_def pixel_to_grid_int_def py_max_def py_min_def num_lt_def Let_def
      max_def min_def)

text \<open>
  A session in which the player stands on the enemy, both on the exit cell, with one
  life left: the grid has the exit cell free.
\<close>

definition exit_room :: grid where
  "exit_room = put initial_grid (GRID_COLS - 2, GRID_ROWS - 2) 1"

definition tie_session :: "int \<Rightarrow> session" where
  "tie_session n =
     \<lparr>level = n, lives = 1, state = Playing, grid = exit_room,
      player_pos = (691, 595), enemy_pos = (PInt 691, PInt 595),
      player_cell = (20, 16), enemy_cell = (PInt 20, PInt 16)\<rparr>"

lemmas eval_defs =
  can_move_to_def corners_def check_corner_def pixel_to_grid_def const_defs
  py_max_def py_min_def num_lt_def num_le_def py_index_def py_get_def py_position_def
  put_def initial_grid_def Let_def

lemma tie_can_move: "can_move_to rd exit_room (PInt 691) (PInt 595) = Inr True"
  by (simp add: eval_defs exit_room_def)

lemma tie_player_phase: "player_phase rd (Some (0, 0)) (tie_session n) = Inr (tie_session n)"
  by (simp add: player_phase_def move_player_def tie_session_def tie_can_move)

lemma tie_cells: "update_enemy_cell rd (update_player_cell (tie_session n)) = tie_session n"
  by (simp add: update_enemy_cell_def update_player_cell_def tie_session_def pixel_to_grid_ints
      pixel_to_grid_int_def const_defs)

lemma tie_enemy_phase: "enemy_phase rd (tie_session n) = Some (Inr (tie_session n))"
  by (simp add: enemy_phase_def next_cell_of_path_def tie_session_def bfs_path_def)

lemma tie_catch:
  "catch_phase (tie_session n) = (tie_session n)\<lparr>lives := 0, state := GameOver\<rparr>"
  by (simp add: catch_phase_def rects_collide_def py_trunc_def tie_session_def const_defs)

lemma tie_update:
  "update rd s (tie_session n) dt (Some (0, 0))
     = Some (exit_phase s ((tie_session n)\<lparr>lives := 0, state := GameOver\<rparr>))"
  unfolding update_def tie_player_phase
  by (simp add: tie_cells tie_enemy_phase tie_catch) (simp add: tie_session_def)

text \<open>
  C2. In one tick of \<^verbatim>\<open>update\<close> in state \<open>Playing\<close>, with the player on the exit
  cell, overlapping the enemy, and one life left, both resolutions take effect: the
  catch takes the last life and sets \<open>GameOver\<close>, and the exit test, which follows in
  a separate \<^verbatim>\<open>if\<close>, raises the level, regenerates the grid and resets the
  positions.
\<close>

theorem catch_and_exit_both_apply:
  "\<exists>gm' s'. update rd s (tie_session 1) dt (Some (0, 0)) = Some (Inr (gm', s'))
      \<and> lives gm' = 0 \<and> state gm' = GameOver
      \<and> level gm' = 2 \<and> generate_maze s 2 = Inr (grid gm', s')
      \<and> player_pos gm' = (83, 115) \<and> player_cell gm' = (1, 1)"
proof -
  from generate_maze_result[of s 2]
  obtain m s' where m: "generate_maze s 2 = Inr (m, s')" by blast
  let ?gm = "reset_positions ((tie_session 1)\<lparr>lives := 0, state := GameOver, level := 2, grid := m\<rparr>)"
  have "exit_phase s ((tie_session 1)\<lparr>lives := 0, state := GameOver\<rparr>) = Inr (?gm, s')"
    using m by (simp add: exit_phase_def tie_session_def const_defs)
  then have "update rd s (tie_session 1) dt (Some (0, 0)) = Some (Inr (?gm, s'))"
    by (simp add: tie_update)
  moreover have "lives ?gm = 0 \<and> state ?gm = GameOver \<and> level ?gm = 2 \<and> grid ?gm = m
      \<and> player_pos ?gm = (83, 115) \<and> player_cell ?gm = (1, 1)"
    by (simp add: reset_positions_def tie_session_def grid_to_pixel_def const_defs)
  ultimately show ?thesis
    using m by auto
qed

text \<open>
  C6. A catch on the last life, with the player on the exit cell: at level 100 the tick
  ends in state \<open>Win\<close>, not \<open>GameOver\<close>; below level 100 it ends in \<open>GameOver\<close>
  with the level number raised by one.
\<close>

theorem last_life_catch_on_exit:
  "(\<exists>gm'. update rd s (tie_session 100) dt (Some (0, 0)) = Some (Inr (gm', s))
        \<and> lives gm' = 0 \<and> state gm' = Win \<and> level gm' = 100)
   \<and> (\<exists>gm' s'. update rd s (tie_session 42) dt (Some (0, 0)) = Some (Inr (gm', s'))
        \<and> lives gm' = 0 \<and> state gm' = GameOver \<and> level gm' = 43)"
proof -
  have "exit_phase s ((tie_session 100)\<lparr>lives := 0, state := GameOver\<rparr>)
          = Inr ((tie_session 100)\<lparr>lives := 0, state := Win\<rparr>, s)"
    by (simp add: exit_phase_def tie_session_def const_defs)
  then have a: "update rd s (tie_session 100) dt (Some (0, 0))
          = Some (Inr ((tie_session 100)\<lparr>lives := 0, state := Win\<rparr>, s))"
    by (simp add: tie_update)
  from generate_maze_result[of s 43]
  obtain m s' where m: "generate_maze s 43 = Inr (m, s')" by blast
  let ?gm = "reset_positions ((tie_session 42)\<lparr>lives := 0, state := GameOver, level := 43, grid := m\<rparr>)"
  have "exit_phase s ((tie_session 42)\<lparr>lives := 0, state := GameOver\<rparr>) = Inr (?gm, s')"
    using m by (simp add: exit_phase_def tie_session_def const_defs)
  then have b: "update rd s (tie_session 42) dt (Some (0, 0)) = Some (Inr (?gm, s'))"
    by (simp add: tie_update)
  have "lives ?gm = 0 \<and> state ?gm = GameOver \<and> level ?gm = 43"
    by (simp add: reset_positions_def tie_session_def Let_def split: prod.splits)
  with a b show ?thesis
    by (auto simp: tie_session_def)
qed

section \<open>Motion, one axis at a time\<close>

text \<open>
  The player's path. When the resolution returns, the X and the Y move are each tested
  against the position before the move, and a coordinate changes exactly when its test
  passes; a move blocked on one axis only still moves the other axis.
\<close>

lemma player_moves_per_axis:
  "move_player rd g (x, y) (dx, dy) = Inr p \<Longrightarrow>
       fst p = (if can_move_to rd g (PInt (x + dx)) (PInt y) = Inr True then x + dx else x)
     \<and> snd p = (if can_move_to rd g (PInt x) (PInt (y + dy)) = Inr True then y + dy else y)"
  "can_move_to rd g (PInt (x + dx)) (PInt y) = Inr False
     \<Longrightarrow> can_move_to rd g (PInt x) (PInt (y + dy)) = Inr True
     \<Longrightarrow> move_player rd g (x, y) (dx, dy) = Inr (x, y + dy)"
  "can_move_to rd g (PInt (x + dx)) (PInt y) = Inr True
     \<Longrightarrow> can_move_to rd g (PInt x) (PInt (y + dy)) = Inr False
     \<Longrightarrow> move_player rd g (x, y) (dx, dy) = Inr (x + dx, y)"
  by (auto simp: move_player_def Let_def split: sum.splits if_splits)

text \<open>
  The player at the left end of the corridor of \<open>two_free\<close>, asked to move left and
  down: the wall on the left rejects the X move, the Y move is made.
\<close>

lemma player_slides:
  "can_move_to (\<lambda>r. r) two_free (PInt (78 + - 2)) (PInt 115) = Inr False"
  "can_move_to (\<lambda>r. r) two_free (PInt 78) (PInt (115 + 2)) = Inr True"
  "move_player (\<lambda>r. r) two_free (78, 115) (- 2, 2) = Inr (78, 117)"
  by (simp_all add: move_player_def eval_defs two_free_def)

text \<open>
  The adversary's path. Its proposed coordinates are floats, because the velocity is
  (\<open>enemy_velocity_float\<close>). On a grid of the fixed size whose outermost ring is wall,
  as every generated grid is, \<^verbatim>\<open>can_move_to\<close> never accepts a position with a
  float coordinate: the column or the row of the first corner is a float, and indexing
  the grid with it raises \<open>TypeError\<close>, unless the clamp of \<^verbatim>\<open>pixel_to_grid\<close>
  replaced it by the int bound \<open>0\<close> or \<open>GRID_COLS - 1\<close> (\<open>GRID_ROWS - 1\<close>), and
  then the corner is on the ring, a wall. So a pursuit that returns leaves the adversary
  where it was.
\<close>

definition ring_walled :: "grid \<Rightarrow> bool" where
  "ring_walled g = (\<forall>c. in_grid c \<longrightarrow> on_ring c \<longrightarrow> cell_at g c = 0)"

lemma clamp_cases:
  "py_max (PInt 0) (py_min (PInt n) v) = v
   \<or> py_max (PInt 0) (py_min (PInt n) v) = PInt 0
   \<or> py_max (PInt 0) (py_min (PInt n) v) = PInt n"
  by (simp add: py_max_def py_min_def)

lemma floordiv_float: "\<exists>r. num_floordiv (num_sub rd (PFloat a) (PInt k)) (PInt t) = PFloat r"
  by simp

lemma floordiv_int: "\<exists>i. num_floordiv (num_sub rd (PInt a) (PInt k)) (PInt t) = PInt i"
  by simp

lemma py_index_row:
  assumes "wf_grid g" "0 \<le> j" "j < GRID_ROWS"
  shows "py_index g (PInt j) = Inr (g ! nat j)"
  using assms by (auto simp: py_index_def py_get_def py_position_def wf_grid_def)

lemma py_index_cell:
  assumes "wf_grid g" "in_grid (i, j)"
  shows "py_index (g ! nat j) (PInt i) = Inr (cell_at g (i, j))"
  using assms wf_row[of g "(i, j)"]
  by (auto simp: py_index_def py_get_def py_position_def cell_at_def in_grid_def)

lemma float_corner_not_free:
  assumes wf: "wf_grid g" and ring: "ring_walled g"
    and fl: "(\<exists>a. fst c = PFloat a) \<or> (\<exists>b. snd c = PFloat b)"
  shows "check_corner rd g c \<noteq> Inr Free"
proof -
  obtain gx gy where p: "pixel_to_grid rd (fst c) (snd c) = (gx, gy)"
    by (cases "pixel_to_grid rd (fst c) (snd c)")
  note b = bounds_test_passes[OF p]
  define vx where "vx = num_floordiv (num_sub rd (fst c) (PInt OFFSET_X)) (PInt TILE)"
  define vy where "vy = num_floordiv (num_sub rd (snd c) (PInt OFFSET_Y)) (PInt TILE)"
  have gx: "gx = py_max (PInt 0) (py_min (PInt (GRID_COLS - 1)) vx)"
    and gy: "gy = py_max (PInt 0) (py_min (PInt (GRID_ROWS - 1)) vy)"
    using p by (simp_all add: pixel_to_grid_def Let_def vx_def vy_def)
  have xf: "i = 0 \<or> i = GRID_COLS - 1" if "fst c = PFloat a" "gx = PInt i" for a i
  proof -
    from that(1) obtain r where "vx = PFloat r"
      by (simp add: vx_def)
    then show ?thesis
      using clamp_cases[of "GRID_COLS - 1" vx] that(2) gx by auto
  qed
  have yf: "j = 0 \<or> j = GRID_ROWS - 1" if "snd c = PFloat a" "gy = PInt j" for a j
  proof -
    from that(1) obtain r where "vy = PFloat r"
      by (simp add: vy_def)
    then show ?thesis
      using clamp_cases[of "GRID_ROWS - 1" vy] that(2) gy by auto
  qed
  show ?thesis
  proof (cases gy)
    case (PFloat r)
    then show ?thesis
      using p b by (simp add: check_corner_def py_index_def)
  next
    case (PInt j)
    then have j: "0 \<le> j" "j < GRID_ROWS"
      using b by (simp_all add: num_le_def num_lt_def)
    have row: "py_index g gy = Inr (g ! nat j)"
      using py_index_row[OF wf j] PInt by simp
    show ?thesis
    proof (cases gx)
      case (PFloat r)
      then show ?thesis
        using p b row by (simp add: check_corner_def py_index_def)
    next
      case gxi: (PInt i)
      then have i: "0 \<le> i" "i < GRID_COLS"
        using b by (simp_all add: num_le_def num_lt_def)
      then have ig: "in_grid (i, j)"
        using j by (simp add: in_grid_def)
      have "on_ring (i, j)"
        using fl xf[OF _ gxi] yf[OF _ PInt] by (auto simp: on_ring_def)
      then have "cell_at g (i, j) = 0"
        using ring ig by (simp add: ring_walled_def)
      then show ?thesis
        using p b row py_index_cell[OF wf ig] gxi by (simp add: check_corner_def)
    qed
  qed
qed

lemma float_position_rejected:
  assumes wf: "wf_grid g" and ring: "ring_walled g"
    and fl: "(\<exists>a. px = PFloat a) \<or> (\<exists>b. py = PFloat b)"
  shows "can_move_to rd g px py \<noteq> Inr True"
proof -
  let ?c = "(num_add rd px (PInt 2), num_add rd py (PInt 2))"
  have "(\<exists>a. fst ?c = PFloat a) \<or> (\<exists>b. snd ?c = PFloat b)"
    using fl by auto
  from float_corner_not_free[OF wf ring this, of rd]
  show ?thesis
    by (auto simp: can_move_to_def corners_def Let_def split: sum.splits corner_check.splits)
qed

lemma py_add_float: "py_add rd a (PFloat b) = Inr v \<Longrightarrow> \<exists>r. v = PFloat r"
  by (cases a) (auto simp: py_add_def float_arith_def to_float_def split: if_splits)

lemma py_truediv_float: "py_truediv rd a b = Inr v \<Longrightarrow> \<exists>r. v = PFloat r"
  by (cases a; cases b) (auto simp: py_truediv_def float_arith_def to_float_def split: if_splits)

lemma enemy_velocity_float:
  "enemy_velocity rd pos c = Inr (Some v) \<Longrightarrow> \<exists>a b. v = (PFloat a, PFloat b)"
  by (auto simp: enemy_velocity_def enemy_speed_along_def split: sum.splits if_splits prod.splits
      dest!: py_truediv_float)

lemma move_enemy_stays:
  assumes wf: "wf_grid g" and ring: "ring_walled g"
    and m: "move_enemy rd g pos (PFloat vx, PFloat vy) = Inr q"
  shows "q = pos"
proof -
  from m obtain nx ny where nx: "py_add rd (fst pos) (PFloat vx) = Inr nx"
    and ny: "py_add rd (snd pos) (PFloat vy) = Inr ny"
    by (auto simp: move_enemy_def split: sum.splits)
  from py_add_float[OF nx] py_add_float[OF ny]
  have x: "can_move_to rd g nx (snd pos) \<noteq> Inr True"
    and y: "can_move_to rd g (fst pos) ny \<noteq> Inr True"
    using float_position_rejected[OF wf ring] by blast+
  from m nx ny x y show ?thesis
    by (auto simp: move_enemy_def Let_def split: sum.splits if_splits)
qed

lemma enemy_never_moves:
  assumes wf: "wf_grid (grid gm)" and ring: "ring_walled (grid gm)"
    and e: "enemy_phase rd gm = Some (Inr gm')"
  shows "gm' = gm"
proof -
  have "gm\<lparr>enemy_pos := q\<rparr> = gm"
    if "enemy_velocity rd (enemy_pos gm) c = Inr (Some v)"
      "move_enemy rd (grid gm) (enemy_pos gm) v = Inr q" for c v q
  proof -
    from enemy_velocity_float[OF that(1)] obtain a b where "v = (PFloat a, PFloat b)"
      by blast
    with that(2) have "q = enemy_pos gm"
      using move_enemy_stays[OF wf ring] by blast
    then show ?thesis
      by simp
  qed
  with e show ?thesis
    by (auto simp: enemy_phase_def split: option.splits sum.splits)
qed

lemma generated_grid_ring_walled:
  "\<exists>g s'. generate_maze s n = Inr (g, s') \<and> wf_grid g \<and> ring_walled g"
  using generate_maze_result[of s n] unfolding ring_walled_def by blast

lemma two_free_ring_walled: "ring_walled two_free"
proof -
  have "cell_at two_free c = 0" if i: "in_grid c" and r: "on_ring c" for c
  proof -
    have n: "c \<noteq> (1, 1)" "c \<noteq> (2, 1)"
      using r by (auto simp: on_ring_def GRID_COLS_def GRID_ROWS_def)
    have w: "wf_grid (put initial_grid (1, 1) 1)"
      by (intro wf_put wf_initial_grid) (simp add: in_grid_def GRID_COLS_def GRID_ROWS_def)
    have "cell_at two_free c = cell_at (put initial_grid (1, 1) 1) c"
      unfolding two_free_def using n(2) i
      by (subst cell_at_put[OF w]) (simp_all add: in_grid_def GRID_COLS_def GRID_ROWS_def)
    also have "\<dots> = cell_at initial_grid c"
      using n(1) i
      by (subst cell_at_put[OF wf_initial_grid]) (simp_all add: in_grid_def GRID_COLS_def GRID_ROWS_def)
    finally show ?thesis
      using cell_at_initial_grid[OF i] by simp
  qed
  then show ?thesis
    by (simp add: ring_walled_def)
qed

text \<open>
  The conversion of a large int to a float raises: with the adversary at a row beyond
  the range of a double, the square root in the distance raises \<open>OverflowError\<close>.
\<close>

lemma sum_squares_out_of_range:
  fixes a b :: int
  assumes "2 ^ 1024 \<le> \<bar>b\<bar>"
  shows "out_of_float_range (of_int (a * a + b * b))"
proof -
  have one: "(1::int) \<le> 2 ^ 1024"
    by (rule one_le_power) simp
  have "\<bar>b\<bar> * 1 \<le> \<bar>b\<bar> * \<bar>b\<bar>"
    using assms one by (intro mult_left_mono) auto
  then have "\<bar>b\<bar> \<le> b * b"
    by (simp add: abs_mult_self_eq)
  moreover have "0 \<le> a * a"
    by simp
  ultimately have "2 ^ 1024 \<le> a * a + b * b"
    using assms by linarith
  then have "(2::real) ^ 1024 \<le> of_int (a * a + b * b)"
    by (metis of_int_le_iff of_int_numeral of_int_power)
  moreover have "(0::real) \<le> 2 ^ 970"
    by simp
  ultimately show ?thesis
    unfolding out_of_float_range_def by linarith
qed

lemma enemy_velocity_overflow:
  assumes "2 ^ 1024 \<le> y - 115"
  shows "enemy_velocity rd (PInt x, PInt y) (1, 1) = Inl OverflowError"
proof -
  have d: "enemy_direction rd (PInt x, PInt y) (1, 1) = Inr (PInt (83 - x), PInt (115 - y))"
    by (simp add: enemy_direction_def grid_to_pixel_def const_defs py_sub_def)
  have "2 ^ 1024 \<le> \<bar>115 - y\<bar>"
    using assms by linarith
  from sum_squares_out_of_range[OF this, of "83 - x"]
  have r: "enemy_distance rd (PInt (83 - x)) (PInt (115 - y)) = Inl OverflowError"
    by (simp add: enemy_distance_def py_square_def py_add_def py_root_def to_float_def)
  have "115 - y \<noteq> 0"
    using assms one_le_power[of "2::int" 1024] by linarith
  then show ?thesis
    by (simp add: enemy_velocity_def d r)
qed

text \<open>
  The enemy one cell to the right of the player in a corridor. The enemy's proposed X is
  a float, so is the column \<^verbatim>\<open>pixel_to_grid\<close> returns for it, and
  \<^verbatim>\<open>self.grid[gy][gx]\<close> raises \<open>TypeError\<close>.
\<close>

definition chase_session :: session where
  "chase_session =
     \<lparr>level = 1, lives = 3, state = Playing, grid = two_free,
      player_pos = (83, 115), enemy_pos = (PInt 115, PInt 115),
      player_cell = (1, 1), enemy_cell = (PInt 2, PInt 1)\<rparr>"

lemma sqrt_1024: "sqrt 1024 = 32"
  using real_sqrt_abs[of 32] by simp

lemma chase_path: "bfs_path two_free (2, 1) (1, 1) = Some (Inr (Some [(2, 1), (1, 1)]))"
  by (simp add: bfs_path_def two_free_def put_def initial_grid_def dirs_def grid_get_def py_get_def
      py_position_def follow.simps const_defs visit.simps)

lemma chase_velocity:
  "enemy_velocity (\<lambda>r. r) (PInt 115, PInt 115) (1, 1) = Inr (Some (PFloat (- 2), PFloat 0))"
  by (simp add: enemy_velocity_def enemy_direction_def enemy_distance_def enemy_speed_along_def
      grid_to_pixel_def const_defs py_sub_def py_square_def py_add_def py_root_def py_mul_def
      py_truediv_def float_arith_def to_float_def out_of_float_range_def py_max_def num_lt_def
      sqrt_1024)

lemma chase_move: "move_enemy (\<lambda>r. r) two_free (PInt 115, PInt 115) (PFloat (- 2), PFloat 0) = Inl TypeError"
  by (simp add: move_enemy_def py_add_def float_arith_def to_float_def out_of_float_range_def
      eval_defs two_free_def)

lemma chase_cells:
  "player_phase (\<lambda>r. r) (Some (0, 0)) chase_session = Inr chase_session"
  "update_enemy_cell (\<lambda>r. r) (update_player_cell chase_session) = chase_session"
proof -
  have "can_move_to (\<lambda>r. r) two_free (PInt 83) (PInt 115) = Inr True"
    by (simp add: eval_defs two_free_def)
  then show "player_phase (\<lambda>r. r) (Some (0, 0)) chase_session = Inr chase_session"
    by (simp add: player_phase_def move_player_def chase_session_def)
  show "update_enemy_cell (\<lambda>r. r) (update_player_cell chase_session) = chase_session"
    by (simp add: update_enemy_cell_def update_player_cell_def chase_session_def pixel_to_grid_ints
      pixel_to_grid_int_def const_defs)
qed

lemma chase_enemy_phase: "enemy_phase (\<lambda>r. r) chase_session = Some (Inl TypeError)"
  by (simp add: enemy_phase_def next_cell_of_path_def chase_session_def chase_path
      chase_velocity chase_move)

text \<open>
  C4. For every actor, player and adversary, the motion of a tick is resolved per axis
  against the position before the move: the X move is attempted and X stays unchanged if
  it is illegal, the Y move likewise, so that a velocity blocked on one axis only still
  moves the other axis. The player's path does so (\<open>player_moves_per_axis\<close>). The
  adversary's does not: in the corridor session, where the player stands still on cell
  (1, 1) and the adversary on cell (2, 1) has one step to make towards it, the tick
  raises \<open>TypeError\<close> and neither axis is resolved.
\<close>

theorem enemy_step_raises:
  "update (\<lambda>r. r) s chase_session dt (Some (0, 0)) = Some (Inl TypeError)"
proof -
  have "state chase_session = Playing"
    by (simp add: chase_session_def)
  then show ?thesis
    by (simp add: update_def chase_cells chase_enemy_phase)
qed

text \<open>
  A catch with lives to spare: one life less, both positions reset, the same level and
  grid, still \<open>Playing\<close>; the exit test that follows finds the player on cell (1, 1).
\<close>

lemma catch_with_lives_left:
  assumes "rects_collide (player_pos gm) PLAYER_SIZE (enemy_pos gm) ENEMY_SIZE"
    and "1 < lives gm"
  shows "exit_phase s (catch_phase gm) = Inr (reset_positions (gm\<lparr>lives := lives gm - 1\<rparr>), s)"
    and "state (reset_positions (gm\<lparr>lives := lives gm - 1\<rparr>)) = state gm"
    and "level (reset_positions (gm\<lparr>lives := lives gm - 1\<rparr>)) = level gm"
    and "grid (reset_positions (gm\<lparr>lives := lives gm - 1\<rparr>)) = grid gm"
  using assms
  by (simp_all add: catch_phase_def exit_phase_def reset_positions_def Let_def const_defs
      split: prod.splits)

section \<open>Mouse clicks: the menu transitions\<close>

text \<open>
  The \<^verbatim>\<open>MOUSEBUTTONDOWN\<close> branch of \<^verbatim>\<open>main_loop\<close>, as far as it changes the game
  object. A \<^verbatim>\<open>pygame.Rect\<close> is (left, top, width, height); \<^verbatim>\<open>collidepoint\<close> holds
  for the points inside it, the left and top edges included. \<open>Quit\<close> is
  \<^verbatim>\<open>sys.exit()\<close>. In state \<open>Playing\<close> a click only sets the loop's local input
  variables.
\<close>

type_synonym rect = "int \<times> int \<times> int \<times> int"

definition collidepoint :: "rect \<Rightarrow> int \<times> int \<Rightarrow> bool" where
  "collidepoint r m =
     (case r of (rx, ry, rw, rh) \<Rightarrow>
        rx \<le> fst m \<and> fst m < rx + rw \<and> ry \<le> snd m \<and> snd m < ry + rh)"

definition start_button :: rect where "start_button = (300, 220, 200, 50)"
definition exit_button :: rect where "exit_button = (300, 290, 200, 50)"
definition restart_button :: rect where "restart_button = (300, 360, 200, 50)"

datatype 'a loop_step = Continue 'a | Quit

definition mouse_button_down ::
    "rng \<Rightarrow> int \<times> int \<Rightarrow> session \<Rightarrow> py_error + (session \<times> rng) loop_step" where
  "mouse_button_down s m gm =
     (case state gm of
        Menu \<Rightarrow>
          (case (if collidepoint start_button m then
                   (case generate_maze s 1 of
                      Inl e \<Rightarrow> Inl e
                    | Inr (maze, s') \<Rightarrow>
                        Inr (reset_positions
                               (gm\<lparr>state := Playing, level := 1, lives := START_LIVES,
                                    grid := maze\<rparr>), s'))
                 else Inr (gm, s)) of
             Inl e \<Rightarrow> Inl e
           | Inr r \<Rightarrow> if collidepoint exit_button m then Inr Quit else Inr (Continue r))
      | GameOver \<Rightarrow>
          Inr (Continue (if collidepoint restart_button m then gm\<lparr>state := Menu\<rparr> else gm, s))
      | Playing \<Rightarrow> Inr (Continue (gm, s))
      | Win \<Rightarrow> Inr (Continue (gm\<lparr>state := Menu\<rparr>, s)))"

text \<open>
  C5, as the code has it. A click that returns to the menu, from \<open>Win\<close> or on the
  restart button from \<open>GameOver\<close>, changes the state and nothing else; a click
  elsewhere in \<open>GameOver\<close> changes nothing. Whenever a click enters \<open>Playing\<close>, it
  does so from \<open>Menu\<close> on the start button, and then the level is 1, the lives are
  \<open>START_LIVES\<close>, the grid is a freshly generated level-1 grid and the positions are
  reset; and a click on the start button in \<open>Menu\<close> always enters \<open>Playing\<close>.
\<close>

theorem menu_transitions:
  "(state gm = Win \<longrightarrow> mouse_button_down s m gm = Inr (Continue (gm\<lparr>state := Menu\<rparr>, s)))
   \<and> (state gm = GameOver \<and> collidepoint restart_button m \<longrightarrow>
         mouse_button_down s m gm = Inr (Continue (gm\<lparr>state := Menu\<rparr>, s)))
   \<and> (state gm = GameOver \<and> \<not> collidepoint restart_button m \<longrightarrow>
         mouse_button_down s m gm = Inr (Continue (gm, s)))
   \<and> (state gm \<noteq> Playing \<and> mouse_button_down s m gm = Inr (Continue (gm', s'))
        \<and> state gm' = Playing \<longrightarrow>
         state gm = Menu \<and> collidepoint start_button m
         \<and> level gm' = 1 \<and> lives gm' = START_LIVES
         \<and> generate_maze s 1 = Inr (grid gm', s')
         \<and> gm' = reset_positions (gm\<lparr>state := Playing, level := 1, lives := START_LIVES,
                                      grid := grid gm'\<rparr>))
   \<and> (state gm = Menu \<and> collidepoint start_button m \<longrightarrow>
         (\<exists>gm' s'. mouse_button_down s m gm = Inr (Continue (gm', s')) \<and> state gm' = Playing))"
proof -
  have disjoint: "collidepoint start_button m \<Longrightarrow> \<not> collidepoint exit_button m"
    by (auto simp: collidepoint_def start_button_def exit_button_def)
  have rs: "state (reset_positions x) = state x" "level (reset_positions x) = level x"
    "lives (reset_positions x) = lives x" "grid (reset_positions x) = grid x" for x
    by (simp_all add: reset_positions_def Let_def split: prod.splits)
  have a: "state gm = Win \<Longrightarrow> mouse_button_down s m gm = Inr (Continue (gm\<lparr>state := Menu\<rparr>, s))"
    by (simp add: mouse_button_down_def)
  have b: "state gm = GameOver \<Longrightarrow> collidepoint restart_button m \<Longrightarrow>
         mouse_button_down s m gm = Inr (Continue (gm\<lparr>state := Menu\<rparr>, s))"
    by (simp add: mouse_button_down_def)
  have c: "state gm = GameOver \<Longrightarrow> \<not> collidepoint restart_button m \<Longrightarrow>
         mouse_button_down s m gm = Inr (Continue (gm, s))"
    by (simp add: mouse_button_down_def)
  have d: "state gm = Menu \<and> collidepoint start_button m
         \<and> level gm' = 1 \<and> lives gm' = START_LIVES
         \<and> generate_maze s 1 = Inr (grid gm', s')
         \<and> gm' = reset_positions (gm\<lparr>state := Playing, level := 1, lives := START_LIVES,
                                      grid := grid gm'\<rparr>)"
    if h: "state gm \<noteq> Playing" "mouse_button_down s m gm = Inr (Continue (gm', s'))"
      "state gm' = Playing"
  proof (cases "state gm")
    case Menu
    show ?thesis
    proof (cases "collidepoint start_button m")
      case True
      from generate_maze_result[of s 1] obtain maze s1 where mz: "generate_maze s 1 = Inr (maze, s1)"
        by blast
      with h(2) Menu True disjoint have
        "gm' = reset_positions (gm\<lparr>state := Playing, level := 1, lives := START_LIVES, grid := maze\<rparr>)"
        "s' = s1"
        by (simp_all add: mouse_button_down_def)
      then show ?thesis
        using Menu True mz by (simp add: rs)
    next
      case False
      with h Menu show ?thesis
        by (auto simp: mouse_button_down_def split: if_splits)
    qed
  next
    case Playing
    with h show ?thesis by simp
  next
    case GameOver
    with h show ?thesis by (auto simp: mouse_button_down_def split: if_splits)
  next
    case Win
    with h show ?thesis by (auto simp: mouse_button_down_def)
  qed
  have e: "\<exists>gm' s'. mouse_button_down s m gm = Inr (Continue (gm', s')) \<and> state gm' = Playing"
    if "state gm = Menu" "collidepoint start_button m"
  proof -
    from generate_maze_result[of s 1] obtain maze s1 where mz: "generate_maze s 1 = Inr (maze, s1)"
      by blast
    then show ?thesis
      using that disjoint by (simp add: mouse_button_down_def rs)
  qed
  show ?thesis
    using a b c d e by blast
qed

text \<open>A session that has ended in \<open>GameOver\<close> on level 5.\<close>

definition over_session :: session where
  "over_session =
     \<lparr>level = 5, lives = 0, state = GameOver, grid = two_free,
      player_pos = (83, 115), enemy_pos = (PInt 83, PInt 115),
      player_cell = (1, 1), enemy_cell = (PInt 1, PInt 1)\<rparr>"

theorem menu_transitions_witness:
  "mouse_button_down (\<lambda>i. i) (350, 380) over_session
      = Inr (Continue (over_session\<lparr>state := Menu\<rparr>, \<lambda>i. i))
   \<and> (\<exists>gm' s'. mouse_button_down (\<lambda>i. i) (350, 240) (over_session\<lparr>state := Menu\<rparr>)
                   = Inr (Continue (gm', s'))
         \<and> state gm' = Playing \<and> level gm' = 1 \<and> lives gm' = 3
         \<and> generate_maze (\<lambda>i. i) 1 = Inr (grid gm', s'))"
proof -
  have r: "collidepoint restart_button (350, 380)" and st: "collidepoint start_button (350, 240)"
    by (simp_all add: collidepoint_def restart_button_def start_button_def)
  have go: "state over_session = GameOver" and mn: "state (over_session\<lparr>state := Menu\<rparr>) = Menu"
    by (simp_all add: over_session_def)
  have a: "mouse_button_down (\<lambda>i. i) (350, 380) over_session
      = Inr (Continue (over_session\<lparr>state := Menu\<rparr>, \<lambda>i. i))"
    using menu_transitions[of over_session "\<lambda>i. i" "(350, 380)"] r go by blast
  from menu_transitions[of "over_session\<lparr>state := Menu\<rparr>" "\<lambda>i. i" "(350, 240)"] st mn
  obtain gm' s' where g: "mouse_button_down (\<lambda>i. i) (350, 240) (over_session\<lparr>state := Menu\<rparr>)
                   = Inr (Continue (gm', s'))" "state gm' = Playing"
    by blast
  have "state (over_session\<lparr>state := Menu\<rparr>) \<noteq> Playing" using mn by simp
  with menu_transitions[of "over_session\<lparr>state := Menu\<rparr>" "\<lambda>i. i" "(350, 240)" gm' s'] g
  have "level gm' = 1 \<and> lives gm' = START_LIVES \<and> generate_maze (\<lambda>i. i) 1 = Inr (grid gm', s')"
    by blast
  with a g show ?thesis
    by (auto simp: START_LIVES_def)
qed

text \<open>
  C5 as stated fails: returning to the menu leaves the level and the lives as they were.
\<close>

theorem return_to_menu_keeps_level_and_lives:
  "mouse_button_down (\<lambda>i. i) (350, 380) over_session
      = Inr (Continue (over_session\<lparr>state := Menu\<rparr>, \<lambda>i. i))
   \<and> state (over_session\<lparr>state := Menu\<rparr>) = Menu
   \<and> level (over_session\<lparr>state := Menu\<rparr>) = 5
   \<and> lives (over_session\<lparr>state := Menu\<rparr>) = 0"
  by (simp add: mouse_button_down_def over_session_def collidepoint_def restart_button_def)

end
